theory Spec2Isabelle
  imports Complex_Main "HOL-Library.Multiset" "HOL-Library.Log_Nat"
begin

section \<open>Exceptions of the Python code as values\<close>

text \<open>
  Every exception that \<^verbatim>\<open>utils.py\<close> or the library calls it makes can raise on
  the paths modelled below is a constructor of \<open>py_error\<close>. A function that can
  raise returns \<open>py_error + 'a\<close>, with \<open>Inl\<close> for the exception.
\<close>

datatype py_error =
    IndexError
  | ValueError
  | RuntimeError
  | ZeroDivisionError
  | NotImplementedError
  | UnpicklingError
  | FileNotFoundError

section \<open>AverageMeter\<close>

text \<open>
  \<^verbatim>\<open>class AverageMeter\<close> (utils.py, lines 23 to 45). The fields \<^verbatim>\<open>sum\<close> and
  \<^verbatim>\<open>count\<close> carry the suffix \<open>_m\<close> because HOL has constants of these names.
  Values are exact rationals and weights are integers: Python's true division
  \<^verbatim>\<open>self.sum / self.count\<close> is exact division here, rounding is not modelled.
\<close>

record AverageMeter =
  name :: string
  fmt :: string
  val :: rat
  avg :: rat
  sum_m :: rat
  count_m :: int



text \<open>
  \<^verbatim>\<open>update\<close> assigns \<^verbatim>\<open>val\<close>, \<^verbatim>\<open>sum\<close> and \<^verbatim>\<open>count\<close> before it divides. When
  the new count is zero the division raises \<^verbatim>\<open>ZeroDivisionError\<close> and the object
  keeps the three assignments already made, with \<^verbatim>\<open>avg\<close> as it was. The model
  therefore returns the meter in both cases, next to the exception if any.
\<close>

definition update :: "AverageMeter \<Rightarrow> rat \<Rightarrow> int \<Rightarrow> py_error option \<times> AverageMeter" where
  "update m v n =
     (let m1 = m\<lparr>val := v\<rparr>;
          m2 = m1\<lparr>sum_m := sum_m m1 + v * of_int n\<rparr>;
          m3 = m2\<lparr>count_m := count_m m2 + n\<rparr>
      in if count_m m3 = 0 then (Some ZeroDivisionError, m3)
         else (None, m3\<lparr>avg := sum_m m3 / of_int (count_m m3)\<rparr>))"


definition weighted_total :: "(rat \<times> int) list \<Rightarrow> rat" where
  "weighted_total us = sum_list (map (\<lambda>(v, n). v * of_int n) us)"


section \<open>Model selection\<close>

text \<open>
  \<^verbatim>\<open>get_model\<close> (utils.py, lines 141 to 177) dispatches on the name by string
  equality. The torchvision constructors, \<^verbatim>\<open>model.eval()\<close> and the transfer to
  the GPU are library code outside the repository: the model keeps which
  constructor is selected, as a value of \<open>arch\<close> that stands for the loaded
  network in evaluation mode wrapped in \<^verbatim>\<open>DataParallel\<close>.
\<close>

datatype arch =
    resnet18 | resnet50 | resnet101 | resnet152 | resnext101_32x8d
  | vgg16 | shufflenet_v2_x1_0 | inception_v3 | densenet161

definition get_model :: "string \<Rightarrow> py_error + arch" where
  "get_model modelname =
     (if modelname = ''ResNet18'' then Inr resnet18
      else if modelname = ''ResNet50'' then Inr resnet50
      else if modelname = ''ResNet101'' then Inr resnet101
      else if modelname = ''ResNet152'' then Inr resnet152
      else if modelname = ''ResNeXt101'' then Inr resnext101_32x8d
      else if modelname = ''VGG16'' then Inr vgg16
      else if modelname = ''ShuffleNet'' then Inr shufflenet_v2_x1_0
      else if modelname = ''Inception'' then Inr inception_v3
      else if modelname = ''DenseNet161'' then Inr densenet161
      else Inl NotImplementedError)"

text \<open>The nine identifiers the specification lists as recognised.\<close>

definition recognized_models :: "string list" where
  "recognized_models =
     [''ResNet18'', ''ResNet50'', ''ResNet101'', ''ResNet152'', ''ResNeXt101'',
      ''VGG16'', ''ShuffleNet'', ''Inception'', ''DenseNet161'']"

section \<open>Floating-point numbers\<close>

text \<open>
  \<^verbatim>\<open>sort_sum\<close> and \<^verbatim>\<open>accuracy\<close> compute with NumPy and PyTorch floats. A float
  is a finite rational, an infinity or NaN; the two zeros of IEEE 754 compare
  equal and are one value here. A binary format is given by its precision (the
  number of significand bits, hidden bit included) and its largest exponent:
  \<^verbatim>\<open>float32\<close> is \<open>binary32\<close>, \<^verbatim>\<open>float64\<close> and the Python \<^verbatim>\<open>float\<close> are
  \<open>binary64\<close>.
\<close>

datatype fl = Finite rat | PosInf | NegInf | NotANumber

record format =
  prec :: nat
  emax :: int

definition binary32 :: format where
  "binary32 = \<lparr>prec = 24, emax = 127\<rparr>"

definition binary64 :: format where
  "binary64 = \<lparr>prec = 53, emax = 1023\<rparr>"

definition emin :: "format \<Rightarrow> int" where
  "emin fm = 1 - emax fm"

definition valid_format :: "format \<Rightarrow> bool" where
  "valid_format fm = (1 \<le> prec fm \<and> 1 \<le> emax fm)"

text \<open>
  Rounding to nearest, ties to even, the default mode of IEEE 754 and the only
  one NumPy and PyTorch use. \<open>rne q\<close> is the integer nearest to \<open>q\<close>.
  \<open>binade x\<close> is the exponent \<open>e\<close> with \<open>2\<^sup>e \<le> x < 2\<^sup>e\<^sup>+\<^sup>1\<close> for \<open>x > 0\<close>, read off
  the bit length of the integer part of \<open>x\<close> or of \<open>1 / x\<close>. \<open>ulp fm x\<close> is the
  spacing of the floats of the format around \<open>x\<close>, constant below the smallest
  normal number (the subnormal range). \<open>round_fin\<close> rounds the magnitude to a
  multiple of that spacing and keeps the sign; \<open>fl_of\<close> is the float a real
  result is stored as, an infinity when the rounded magnitude reaches
  \<open>2\<^sup>e\<^sup>m\<^sup>a\<^sup>x\<^sup>+\<^sup>1\<close>.
\<close>

definition rne :: "rat \<Rightarrow> int" where
  "rne q =
     (let n = \<lfloor>q\<rfloor>; r = q - of_int n
      in if r < 1 / 2 then n else if 1 / 2 < r then n + 1 else if even n then n else n + 1)"

definition binade :: "rat \<Rightarrow> int" where
  "binade x = (if 1 \<le> x then bitlen \<lfloor>x\<rfloor> - 1 else - bitlen (\<lceil>1 / x\<rceil> - 1))"

definition ulp :: "format \<Rightarrow> rat \<Rightarrow> rat" where
  "ulp fm x = 2 powi (max (binade \<bar>x\<bar>) (emin fm) - (int (prec fm) - 1))"

definition round_fin :: "format \<Rightarrow> rat \<Rightarrow> rat" where
  "round_fin fm x =
     (if x = 0 then 0 else sgn x * (of_int (rne (\<bar>x\<bar> / ulp fm x)) * ulp fm x))"

definition fl_of :: "format \<Rightarrow> rat \<Rightarrow> fl" where
  "fl_of fm x =
     (let y = round_fin fm x
      in if 2 powi (emax fm + 1) \<le> y then PosInf
         else if y \<le> - (2 powi (emax fm + 1)) then NegInf
         else Finite y)"

text \<open>
  The order in which \<^verbatim>\<open>np.sort\<close> and \<^verbatim>\<open>np.argsort\<close> arrange floats: by value,
  with NaN after everything else. It is the order \<open>\<le>\<close> of the type. The
  comparison \<^verbatim>\<open><=\<close> of IEEE 754 is \<open>fl_le\<close>: it is false as soon as one side is
  NaN.
\<close>

fun fl_rank :: "fl \<Rightarrow> nat" where
  "fl_rank NegInf = 0"
| "fl_rank (Finite x) = 1"
| "fl_rank PosInf = 2"
| "fl_rank NotANumber = 3"

fun fl_val :: "fl \<Rightarrow> rat" where
  "fl_val (Finite x) = x"
| "fl_val PosInf = 0"
| "fl_val NegInf = 0"
| "fl_val NotANumber = 0"

instantiation fl :: linorder
begin

definition less_eq_fl :: "fl \<Rightarrow> fl \<Rightarrow> bool" where
  "less_eq_fl a b = (fl_rank a < fl_rank b \<or> (fl_rank a = fl_rank b \<and> fl_val a \<le> fl_val b))"

definition less_fl :: "fl \<Rightarrow> fl \<Rightarrow> bool" where
  "less_fl a b = (fl_rank a < fl_rank b \<or> (fl_rank a = fl_rank b \<and> fl_val a < fl_val b))"

instance
proof
  fix x y z :: fl
  show "(x < y) = (x \<le> y \<and> \<not> y \<le> x)"
    by (auto simp: less_eq_fl_def less_fl_def)
  show "x \<le> x"
    by (simp add: less_eq_fl_def)
  show "x \<le> y \<Longrightarrow> y \<le> z \<Longrightarrow> x \<le> z"
    by (auto simp: less_eq_fl_def)
  show "x \<le> y \<Longrightarrow> y \<le> x \<Longrightarrow> x = y"
    by (cases x; cases y) (auto simp: less_eq_fl_def)
  show "x \<le> y \<or> y \<le> x"
    by (auto simp: less_eq_fl_def)
qed

end

definition fl_le :: "fl \<Rightarrow> fl \<Rightarrow> bool" where
  "fl_le a b = (a \<noteq> NotANumber \<and> b \<noteq> NotANumber \<and> a \<le> b)"

text \<open>
  Addition and multiplication of two floats of a format, the exact result rounded;
  \<open>fcast\<close> converts a float to a format. \<open>is_fl fm a\<close> says that \<open>a\<close> is a float
  of the format, \<open>is_finite a\<close> that it is neither an infinity nor NaN.
\<close>

fun fadd :: "format \<Rightarrow> fl \<Rightarrow> fl \<Rightarrow> fl" where
  "fadd fm (Finite x) (Finite y) = fl_of fm (x + y)"
| "fadd fm NotANumber b = NotANumber"
| "fadd fm a NotANumber = NotANumber"
| "fadd fm PosInf NegInf = NotANumber"
| "fadd fm NegInf PosInf = NotANumber"
| "fadd fm PosInf b = PosInf"
| "fadd fm a PosInf = PosInf"
| "fadd fm NegInf b = NegInf"
| "fadd fm a NegInf = NegInf"

definition fl_sgn :: "fl \<Rightarrow> int" where
  "fl_sgn a = (case a of Finite x \<Rightarrow> (if 0 < x then 1 else if x < 0 then - 1 else 0)
                 | PosInf \<Rightarrow> 1 | NegInf \<Rightarrow> - 1 | NotANumber \<Rightarrow> 0)"

fun fmul :: "format \<Rightarrow> fl \<Rightarrow> fl \<Rightarrow> fl" where
  "fmul fm (Finite x) (Finite y) = fl_of fm (x * y)"
| "fmul fm NotANumber b = NotANumber"
| "fmul fm a NotANumber = NotANumber"
| "fmul fm a b =
     (if fl_sgn a * fl_sgn b = 0 then NotANumber
      else if 0 < fl_sgn a * fl_sgn b then PosInf else NegInf)"

definition fcast :: "format \<Rightarrow> fl \<Rightarrow> fl" where
  "fcast fm a = (case a of Finite x \<Rightarrow> fl_of fm x | _ \<Rightarrow> a)"

definition is_fl :: "format \<Rightarrow> fl \<Rightarrow> bool" where
  "is_fl fm a = (case a of Finite x \<Rightarrow> fl_of fm x = Finite x | _ \<Rightarrow> True)"

definition is_finite :: "fl \<Rightarrow> bool" where
  "is_finite a = (case a of Finite x \<Rightarrow> True | _ \<Rightarrow> False)"

section \<open>sort\_sum\<close>

text \<open>
  \<^verbatim>\<open>sort_sum\<close> (utils.py, lines 16 to 20). A matrix is the list of its rows, its
  entries are floats of one format \<open>fm\<close>, the dtype of the array (the callers
  pass softmax scores; integer arrays are not modelled).

  \<^verbatim>\<open>scores.argsort(axis=1)\<close> gives, for each row, the column indices in ascending
  order of their scores; NumPy leaves the order among equal scores open, the model
  takes the stable one. \<^verbatim>\<open>[:, ::-1]\<close> reverses each row. \<^verbatim>\<open>np.sort\<close> is \<open>sort\<close>
  in the order of the type.
\<close>

definition argsort :: "'a::linorder list \<Rightarrow> nat list" where
  "argsort row = sort_key (\<lambda>i. row ! i) [0..<length row]"

text \<open>
  \<^verbatim>\<open>np.cumsum(ordered, axis=1)\<close>: the first entry of a row is copied, every later
  entry is the float sum of the entry before it and the next score, so every
  addition rounds.
\<close>

fun cumsum_from :: "format \<Rightarrow> fl \<Rightarrow> fl list \<Rightarrow> fl list" where
  "cumsum_from fm acc [] = []"
| "cumsum_from fm acc (x # xs) = fadd fm acc x # cumsum_from fm (fadd fm acc x) xs"

definition np_cumsum :: "format \<Rightarrow> fl list \<Rightarrow> fl list" where
  "np_cumsum fm xs = (case xs of [] \<Rightarrow> [] | x # ys \<Rightarrow> x # cumsum_from fm x ys)"

definition sort_sum :: "format \<Rightarrow> fl list list \<Rightarrow> nat list list \<times> fl list list \<times> fl list list" where
  "sort_sum fm scores =
     (let I = map (\<lambda>row. rev (argsort row)) scores;
          ordered = map (\<lambda>row. rev (sort row)) scores;
          cumsum = map (np_cumsum fm) ordered
      in (I, ordered, cumsum))"

section \<open>accuracy\<close>

text \<open>
  \<^verbatim>\<open>accuracy\<close> (utils.py, lines 101 to 114). \<open>output\<close> is the list of score
  rows, \<open>target\<close> the list of labels, \<open>topk\<close> the tuple of cut-offs. The scores
  are compared only, so they are the rationals the finite floats stand for.
\<close>

text \<open>
\<^verbatim>\<open>max(topk)\<close>: Python raises \<^verbatim>\<open>ValueError\<close> on an empty sequence.
\<close>

definition py_max :: "int list \<Rightarrow> py_error + int" where
  "py_max xs = (case xs of [] \<Rightarrow> Inl ValueError | x # ys \<Rightarrow> Inr (fold max ys x))"

text \<open>
  \<^verbatim>\<open>output.topk(maxk, 1, True, True)\<close>: for each row the indices of the \<open>k\<close>
  largest scores, largest first. PyTorch leaves the choice among equal scores
  open: the choice its kernel makes is the parameter \<open>sel\<close> of the model, a
  function from a row and \<open>k\<close> to the indices selected. \<open>topk_indices\<close> is one
  such choice, the lower index first. The call raises \<^verbatim>\<open>RuntimeError\<close> when
  \<open>k\<close> is negative or exceeds the number of columns.
\<close>

definition topk_indices :: "rat list \<Rightarrow> nat \<Rightarrow> nat list" where
  "topk_indices row k = take k (sort_key (\<lambda>i. - (row ! i)) [0..<length row])"

definition torch_topk ::
  "(rat list \<Rightarrow> nat \<Rightarrow> nat list) \<Rightarrow> rat list list \<Rightarrow> int \<Rightarrow> py_error + nat list list" where
  "torch_topk sel output k =
     (if k < 0 \<or> (\<exists>row\<in>set output. int (length row) < k) then Inl RuntimeError
      else Inr (map (\<lambda>row. sel row (nat k)) output))"

text \<open>
\<^verbatim>\<open>pred.t()\<close> on a matrix of \<open>ncols\<close> columns.
\<close>

definition t_matrix :: "'a list list \<Rightarrow> nat \<Rightarrow> 'a list list" where
  "t_matrix m ncols = map (\<lambda>j. map (\<lambda>row. row ! j) m) [0..<ncols]"

text \<open>
  \<^verbatim>\<open>target.view(1, -1).expand_as(pred)\<close> for \<^verbatim>\<open>pred\<close> of shape
  \<open>nrows \<times> ncols\<close>: the row of targets repeated, a single target broadcast to every
  position, and \<^verbatim>\<open>RuntimeError\<close> for any other length.
\<close>

definition expand_as :: "int list \<Rightarrow> nat \<Rightarrow> nat \<Rightarrow> py_error + int list list" where
  "expand_as target nrows ncols =
     (if length target = ncols then Inr (replicate nrows target)
      else if length target = 1 then Inr (replicate nrows (replicate ncols (hd target)))
      else Inl RuntimeError)"

text \<open>
The Python slice \<^verbatim>\<open>xs[:k]\<close>, a negative \<open>k\<close> counting from the end.
\<close>

definition py_slice_to :: "int \<Rightarrow> 'a list \<Rightarrow> 'a list" where
  "py_slice_to k xs = (if 0 \<le> k then take (nat k) xs else take (length xs - nat (- k)) xs)"

definition count_true :: "bool list \<Rightarrow> nat" where
  "count_true bs = length (filter (\<lambda>b. b) bs)"

text \<open>
  \<^verbatim>\<open>.float()\<close> turns a Boolean into the \<^verbatim>\<open>float32\<close> 1.0 or 0.0, and \<^verbatim>\<open>.sum()\<close>
  adds the entries in \<^verbatim>\<open>float32\<close>. PyTorch does not fix the order of the
  additions; the model adds from left to right. Every order gives the same sum
  when the entries are at most \<open>2\<^sup>2\<^sup>4\<close> ones and zeros, since every partial sum
  is then an integer that \<^verbatim>\<open>float32\<close> holds exactly.
\<close>

definition bool_float :: "bool \<Rightarrow> fl" where
  "bool_float b = Finite (if b then 1 else 0)"

definition torch_sum :: "format \<Rightarrow> fl list \<Rightarrow> fl" where
  "torch_sum fm xs = foldl (fadd fm) (Finite 0) xs"

text \<open>
  \<^verbatim>\<open>100.0 / batch_size\<close> is a division of Python floats: \<open>batch_size\<close> is
  converted to \<open>binary64\<close>, the quotient is rounded to \<open>binary64\<close>.
  \<^verbatim>\<open>correct_k.mul_(...)\<close> multiplies a \<^verbatim>\<open>float32\<close> tensor by that scalar: PyTorch
  converts the scalar to \<^verbatim>\<open>float32\<close> and multiplies in \<^verbatim>\<open>float32\<close>. With no
  target the division raises \<^verbatim>\<open>ZeroDivisionError\<close>; an empty \<open>output\<close> is a
  matrix without rows, whose column count the list of rows does not record, so for
  it the range check of \<^verbatim>\<open>topk\<close> passes.
\<close>

definition accuracy ::
  "(rat list \<Rightarrow> nat \<Rightarrow> nat list) \<Rightarrow> rat list list \<Rightarrow> int list \<Rightarrow> int list \<Rightarrow> py_error + fl list" where
  "accuracy sel output target topk =
     (case py_max topk of Inl e \<Rightarrow> Inl e | Inr maxk \<Rightarrow>
        let batch_size = length target in
        case torch_topk sel output maxk of Inl e \<Rightarrow> Inl e | Inr pred0 \<Rightarrow>
          let pred = t_matrix pred0 (nat maxk) in
          case expand_as target (nat maxk) (length output) of Inl e \<Rightarrow> Inl e | Inr tgt \<Rightarrow>
            let correct = map2 (\<lambda>ps ts. map2 (\<lambda>p t. int p = t) ps ts) pred tgt in
            if batch_size = 0 then Inl ZeroDivisionError
            else
              let scale = fl_of binary64 (100 / round_fin binary64 (of_nat batch_size)) in
              Inr (map (\<lambda>k. fmul binary32
                              (torch_sum binary32 (map bool_float (concat (py_slice_to k correct))))
                              (fcast binary32 scale)) topk))"

text \<open>
  What the claims about \<^verbatim>\<open>accuracy\<close> speak of. \<open>is_top_k row k s\<close>: \<open>s\<close>
  lists \<open>k\<close> distinct classes of the row, highest score first, and no class outside
  \<open>s\<close> scores higher than a class in it; this is what \<^verbatim>\<open>topk\<close> promises of its
  result. \<open>label_in t s\<close>: the label \<open>t\<close> is one of the classes in \<open>s\<close>.
  \<open>hits sel m output target k\<close> counts the examples whose label is among the first
  \<open>k\<close> of the \<open>m\<close> classes selected for their row. \<open>percent_f32 h n\<close> is the
  \<^verbatim>\<open>float32\<close> the source computes from \<open>h\<close> hits among \<open>n\<close> examples.
\<close>

definition is_top_k :: "rat list \<Rightarrow> nat \<Rightarrow> nat list \<Rightarrow> bool" where
  "is_top_k row k sel =
     (length sel = k \<and> distinct sel \<and> (\<forall>j\<in>set sel. j < length row) \<and>
      sorted_wrt (\<ge>) (map (\<lambda>j. row ! j) sel) \<and>
      (\<forall>j\<in>set sel. \<forall>i<length row. i \<notin> set sel \<longrightarrow> row ! i \<le> row ! j))"

definition label_in :: "int \<Rightarrow> nat list \<Rightarrow> bool" where
  "label_in t sel = (\<exists>j\<in>set sel. t = int j)"

definition hits ::
  "(rat list \<Rightarrow> nat \<Rightarrow> nat list) \<Rightarrow> nat \<Rightarrow> rat list list \<Rightarrow> int list \<Rightarrow> nat \<Rightarrow> nat" where
  "hits sel m output target k =
     length (filter (\<lambda>i. label_in (target ! i) (take k (sel (output ! i) m))) [0..<length target])"

definition percent_f32 :: "nat \<Rightarrow> nat \<Rightarrow> rat" where
  "percent_f32 h n =
     round_fin binary32 (of_nat h * round_fin binary32 (round_fin binary64 (100 / of_nat n)))"

section \<open>coverage\_size\<close>

text \<open>
  \<^verbatim>\<open>coverage_size\<close> (utils.py, lines 79 to 98). \<open>sets\<close> is the Boolean
  prediction-set matrix as the list of its rows, \<open>targets\<close> the vector of integer
  labels. Means are exact rationals; \<^verbatim>\<open>np.mean\<close> of an empty array is NaN (with
  a warning, not an exception), which \<open>npfloat\<close> keeps as a value.
\<close>

datatype npfloat = NaN | Val rat

definition np_mean :: "rat list \<Rightarrow> npfloat" where
  "np_mean xs = (if xs = [] then NaN else Val (sum_list xs / of_nat (length xs)))"

text \<open>
  An array of floats of any number of dimensions: its shape and its entries in
  row-major order. \<^verbatim>\<open>np.zeros(shape)\<close> takes a sequence of dimension sizes; it
  raises \<^verbatim>\<open>ValueError\<close> for more dimensions than NumPy supports (32 in NumPy 1,
  the version of the code's time). Memory limits are not modelled.
\<close>

record ndarray =
  shape :: "nat list"
  data :: "npfloat list"

definition NPY_MAXDIMS :: nat where
  "NPY_MAXDIMS = 32"

definition np_zeros :: "nat list \<Rightarrow> py_error + ndarray" where
  "np_zeros shp =
     (if NPY_MAXDIMS < length shp then Inl ValueError
      else Inr \<lparr>shape = shp, data = replicate (prod_list shp) (Val 0)\<rparr>)"

text \<open>
  \<^verbatim>\<open>a[i] = v\<close> for a scalar \<open>v\<close> and \<open>i \<ge> 0\<close>: the index runs along the first axis,
  and the scalar is broadcast over the whole sub-array \<open>a[i]\<close>. An index beyond the
  first axis, or any index into a zero-dimensional array, raises \<^verbatim>\<open>IndexError\<close>.
\<close>

definition setitem :: "ndarray \<Rightarrow> nat \<Rightarrow> npfloat \<Rightarrow> py_error + ndarray" where
  "setitem a i v =
     (case shape a of
        [] \<Rightarrow> Inl IndexError
      | d # ds \<Rightarrow>
          if i < d then
            let stride = prod_list ds
            in Inr (a\<lparr>data := take (i * stride) (data a) @ replicate stride v
                                @ drop ((i + 1) * stride) (data a)\<rparr>)
          else Inl IndexError)"

text \<open>
  \<^verbatim>\<open>a.min()\<close>, \<^verbatim>\<open>a.max()\<close> and \<^verbatim>\<open>np.median(a)\<close> reduce over all entries of the
  array, whatever its shape. NaN propagates; \<^verbatim>\<open>min\<close> and \<^verbatim>\<open>max\<close> of an array
  without entries raise \<^verbatim>\<open>ValueError\<close>, its median is NaN.
\<close>

fun finite_values :: "npfloat list \<Rightarrow> rat list option" where
  "finite_values [] = Some []"
| "finite_values (NaN # xs) = None"
| "finite_values (Val r # xs) = (case finite_values xs of None \<Rightarrow> None | Some rs \<Rightarrow> Some (r # rs))"

definition np_min :: "ndarray \<Rightarrow> py_error + npfloat" where
  "np_min a =
     (case finite_values (data a) of
        None \<Rightarrow> Inr NaN
      | Some [] \<Rightarrow> Inl ValueError
      | Some (r # rs) \<Rightarrow> Inr (Val (fold min rs r)))"

definition np_max :: "ndarray \<Rightarrow> py_error + npfloat" where
  "np_max a =
     (case finite_values (data a) of
        None \<Rightarrow> Inr NaN
      | Some [] \<Rightarrow> Inl ValueError
      | Some (r # rs) \<Rightarrow> Inr (Val (fold max rs r)))"

definition median_list :: "rat list \<Rightarrow> rat" where
  "median_list rs =
     (let s = sort rs; n = length s
      in if even n then (s ! (n div 2 - 1) + s ! (n div 2)) / 2 else s ! (n div 2))"

definition np_median :: "ndarray \<Rightarrow> npfloat" where
  "np_median a =
     (case finite_values (data a) of
        None \<Rightarrow> NaN
      | Some [] \<Rightarrow> NaN
      | Some (r # rs) \<Rightarrow> Val (median_list (r # rs)))"

text \<open>
  NumPy's integer indexing along an axis of size \<open>n\<close>: a negative index counts from
  the end, an index outside \<open>[-n, n)\<close> raises \<^verbatim>\<open>IndexError\<close>.
\<close>

definition norm_index :: "int \<Rightarrow> nat \<Rightarrow> nat option" where
  "norm_index i n =
     (if 0 \<le> i \<and> i < int n then Some (nat i)
      else if - int n \<le> i \<and> i < 0 then Some (nat (i + int n))
      else None)"

fun collect :: "(py_error + 'a) list \<Rightarrow> py_error + 'a list" where
  "collect [] = Inr []"
| "collect (Inl e # xs) = Inl e"
| "collect (Inr x # xs) = (case collect xs of Inl e \<Rightarrow> Inl e | Inr ys \<Rightarrow> Inr (x # ys))"

definition column_entry :: "bool list \<Rightarrow> int \<Rightarrow> py_error + bool" where
  "column_entry row c = (case norm_index c (length row) of None \<Rightarrow> Inl IndexError | Some j \<Rightarrow> Inr (row ! j))"

text \<open>
  \<^verbatim>\<open>sets[range(n_test), targets]\<close>: entry \<open>targets[r]\<close> of row \<open>r\<close>, for every
  \<open>r < n_test\<close>.
\<close>

definition index_rows_targets :: "bool list list \<Rightarrow> int list \<Rightarrow> py_error + bool list" where
  "index_rows_targets sets targets =
     (if length sets < length targets then Inl IndexError
      else collect (map2 column_entry (take (length targets) sets) targets))"

text \<open>
  \<^verbatim>\<open>sets[mask, :]\<close> and \<^verbatim>\<open>sets[mask, c]\<close> for a Boolean \<open>mask\<close> over the rows: the
  mask must have one entry per row.
\<close>

definition mask_rows :: "bool list list \<Rightarrow> bool list \<Rightarrow> py_error + bool list list" where
  "mask_rows sets msk =
     (if length msk \<noteq> length sets then Inl IndexError
      else Inr (map fst (filter snd (zip sets msk))))"

definition mask_rows_column :: "bool list list \<Rightarrow> bool list \<Rightarrow> int \<Rightarrow> py_error + bool list" where
  "mask_rows_column sets msk c =
     (case mask_rows sets msk of
        Inl e \<Rightarrow> Inl e
      | Inr rows \<Rightarrow> collect (map (\<lambda>row. column_entry row c) rows))"

text \<open>
  \<^verbatim>\<open>np.mean(b == True)\<close> of a Boolean vector and \<^verbatim>\<open>rows.sum(1).mean()\<close> of a
  Boolean matrix.
\<close>

definition mean_true :: "bool list \<Rightarrow> npfloat" where
  "mean_true bs = np_mean (map (\<lambda>b. if b then 1 else 0) bs)"

definition sum1_mean :: "bool list list \<Rightarrow> npfloat" where
  "sum1_mean rows = np_mean (map (\<lambda>row. of_nat (count_true row)) rows)"

text \<open>
  \<^verbatim>\<open>np.unique(targets, return_counts=True)\<close>: the distinct labels in ascending
  order and how often each occurs.
\<close>

definition np_unique :: "int list \<Rightarrow> int list \<times> nat list" where
  "np_unique targets =
     (let classes = sort (remdups targets)
      in (classes, map (\<lambda>c. count_list targets c) classes))"

text \<open>
  The loop over \<^verbatim>\<open>enumerate(classes)\<close>, with the two arrays it assigns into.
\<close>

fun class_loop ::
  "bool list list \<Rightarrow> int list \<Rightarrow> (nat \<times> int) list \<Rightarrow> ndarray \<times> ndarray \<Rightarrow> py_error + ndarray \<times> ndarray" where
  "class_loop sets targets [] (cvgs, szs) = Inr (cvgs, szs)"
| "class_loop sets targets ((i, cls) # rest) (cvgs, szs) =
     (case mask_rows_column sets (map (\<lambda>t. t = cls) targets) cls of
        Inl e \<Rightarrow> Inl e
      | Inr col \<Rightarrow>
     (case setitem cvgs i (mean_true col) of
        Inl e \<Rightarrow> Inl e
      | Inr cvgs' \<Rightarrow>
     (case mask_rows sets (map (\<lambda>t. t = cls) targets) of
        Inl e \<Rightarrow> Inl e
      | Inr rows \<Rightarrow>
     (case setitem szs i (sum1_mean rows) of
        Inl e \<Rightarrow> Inl e
      | Inr szs' \<Rightarrow> class_loop sets targets rest (cvgs', szs')))))"

record coverage_result =
  cvg :: npfloat
  sz :: npfloat
  cls_cvg_min :: npfloat
  cls_cvg_max :: npfloat
  cls_cvg_median :: npfloat
  cls_sz_min :: npfloat
  cls_sz_max :: npfloat
  cls_sz_median :: npfloat

text \<open>
  Line 86 of the source passes \<open>counts\<close>, the vector of class counts, as the
  \<^emph>\<open>shape\<close> of \<open>cvgs\<close> and \<open>szs\<close>: with \<open>K\<close> observed classes these are
  \<open>K\<close>-dimensional arrays of shape \<open>counts\<close>, not vectors of length \<open>K\<close>.
\<close>

definition coverage_size :: "bool list list \<Rightarrow> int list \<Rightarrow> py_error + coverage_result" where
  "coverage_size sets targets =
     (case index_rows_targets sets targets of Inl e \<Rightarrow> Inl e | Inr hit \<Rightarrow>
      let cvg0 = mean_true hit;
          sz0 = sum1_mean sets;
          (classes, counts) = np_unique targets
      in
      case np_zeros counts of Inl e \<Rightarrow> Inl e | Inr cvgs0 \<Rightarrow>
      case np_zeros counts of Inl e \<Rightarrow> Inl e | Inr szs0 \<Rightarrow>
      case class_loop sets targets (enumerate 0 classes) (cvgs0, szs0) of Inl e \<Rightarrow> Inl e
      | Inr (cvgs, szs) \<Rightarrow>
      case np_min cvgs of Inl e \<Rightarrow> Inl e | Inr cmin \<Rightarrow>
      case np_max cvgs of Inl e \<Rightarrow> Inl e | Inr cmax \<Rightarrow>
      case np_min szs of Inl e \<Rightarrow> Inl e | Inr smin \<Rightarrow>
      case np_max szs of Inl e \<Rightarrow> Inl e | Inr smax \<Rightarrow>
        Inr \<lparr>cvg = cvg0, sz = sz0,
             cls_cvg_min = cmin, cls_cvg_max = cmax, cls_cvg_median = np_median cvgs,
             cls_sz_min = smin, cls_sz_max = smax, cls_sz_median = np_median szs\<rparr>)"


text \<open>
  The per-class statistics in the words of the specification, for a class \<open>k\<close>:
  the fraction of examples labelled \<open>k\<close> whose prediction set contains \<open>k\<close>, and
  the mean cardinality of the prediction sets of the examples labelled \<open>k\<close>.
\<close>

definition spec_class_coverage :: "bool list list \<Rightarrow> int list \<Rightarrow> nat \<Rightarrow> npfloat" where
  "spec_class_coverage sets targets k =
     mean_true (map (\<lambda>(row, t). row ! k) (filter (\<lambda>(row, t). t = int k) (zip sets targets)))"

definition spec_class_size :: "bool list list \<Rightarrow> int list \<Rightarrow> nat \<Rightarrow> npfloat" where
  "spec_class_size sets targets k =
     sum1_mean (map fst (filter (\<lambda>(row, t). t = int k) (zip sets targets)))"

section \<open>get\_logits\_targets\<close>

text \<open>
  \<^verbatim>\<open>get_logits_targets\<close> (utils.py, lines 181 to 196) runs the network over the
  batches of a loader and stores the scores and the labels in two tensors
  allocated beforehand.

  \<^verbatim>\<open>labels = torch.zeros((len(loader.dataset),))\<close> is a tensor of 32-bit floats,
  so every label written into it is rounded to the nearest float (ties to even),
  and \<^verbatim>\<open>labels.long()\<close> converts the stored float back to an integer. An integer
  of magnitude below \<open>2 ^ 24\<close> is a float; above, the spacing of the floats is
  \<open>2 ^ float32_shift a\<close>. Labels are 64-bit integers in the source and far below
  the largest float, so overflow to infinity is not modelled.
\<close>

fun float32_shift :: "nat \<Rightarrow> nat" where
  "float32_shift a = (if a < 2 ^ 24 then 0 else Suc (float32_shift (a div 2)))"

declare float32_shift.simps [simp del]

definition float32_round_nat :: "nat \<Rightarrow> nat" where
  "float32_round_nat a =
     (let s = float32_shift a; ulp = 2 ^ s; q = a div ulp; r = a mod ulp
      in if 2 * r > ulp \<or> (2 * r = ulp \<and> odd q) then (q + 1) * ulp else q * ulp)"

definition float32_long :: "int \<Rightarrow> int" where
  "float32_long t = (if 0 \<le> t then int (float32_round_nat (nat t)) else - int (float32_round_nat (nat (- t))))"

text \<open>
  The width of the table of scores is the literal \<^verbatim>\<open>1000\<close> of line 183.
\<close>

definition n_classes :: nat where
  "n_classes = 1000"

text \<open>
  A loader: \<^verbatim>\<open>len(loader.dataset)\<close> and the batches it yields in order, each a
  pair of the inputs \<open>x\<close> (\<^verbatim>\<open>x.shape[0]\<close> is \<open>length x\<close>) and the labels
  \<open>targets\<close>.
\<close>

record 'x loader =
  dataset_len :: nat
  batches :: "('x list \<times> int list) list"

text \<open>
  \<^verbatim>\<open>t[lo:hi] = v\<close> on a tensor: the slice bounds are clamped to the length of
  \<open>t\<close>, and \<open>v\<close> is broadcast to the length of the slice: it fits when it has
  that length or length one, otherwise PyTorch raises \<^verbatim>\<open>RuntimeError\<close>.
  \<^verbatim>\<open>logits[lo:hi, :] = v\<close> broadcasts in both dimensions; \<open>v\<close> is a matrix, the
  list of its rows.
\<close>

definition broadcast_to :: "nat \<Rightarrow> 'a list \<Rightarrow> py_error + 'a list" where
  "broadcast_to m v =
     (if length v = m then Inr v
      else if length v = 1 then Inr (replicate m (hd v))
      else Inl RuntimeError)"

definition assign_slice :: "'a list \<Rightarrow> nat \<Rightarrow> nat \<Rightarrow> 'a list \<Rightarrow> py_error + 'a list" where
  "assign_slice xs lo hi v =
     (let lo' = min lo (length xs); hi' = max lo' (min hi (length xs))
      in case broadcast_to (hi' - lo') v of
           Inl e \<Rightarrow> Inl e
         | Inr v' \<Rightarrow> Inr (take lo' xs @ v' @ drop hi' xs))"

definition assign_rows ::
  "'a list list \<Rightarrow> nat \<Rightarrow> nat \<Rightarrow> 'a list list \<Rightarrow> py_error + 'a list list" where
  "assign_rows tbl lo hi v =
     (case collect (map (broadcast_to n_classes) v) of
        Inl e \<Rightarrow> Inl e
      | Inr rows \<Rightarrow> assign_slice tbl lo hi rows)"

text \<open>
  The state of the loop of lines 188 to 192: the two tensors and the cursor
  \<^verbatim>\<open>i\<close>. The network is a function from a batch of inputs to its matrix of
  scores, or to the exception it raises; the transfers between devices and
  \<^verbatim>\<open>detach\<close> do not change values.
\<close>

record 'a cursor_state =
  logits :: "'a list list"
  labels :: "int list"
  i :: nat

fun run_batches ::
  "('x list \<Rightarrow> py_error + 'a list list) \<Rightarrow> ('x list \<times> int list) list \<Rightarrow> 'a cursor_state
   \<Rightarrow> py_error + 'a cursor_state" where
  "run_batches model [] st = Inr st"
| "run_batches model ((x, targets) # rest) st =
     (case model x of Inl e \<Rightarrow> Inl e | Inr batch_logits \<Rightarrow>
      case assign_rows (logits st) (i st) (i st + length x) batch_logits of Inl e \<Rightarrow> Inl e
      | Inr logits' \<Rightarrow>
      case assign_slice (labels st) (i st) (i st + length x) (map float32_long targets) of Inl e \<Rightarrow> Inl e
      | Inr labels' \<Rightarrow>
        run_batches model rest \<lparr>logits = logits', labels = labels', i = i st + length x\<rparr>)"

definition initial_state :: "nat \<Rightarrow> 'a::zero cursor_state" where
  "initial_state n = \<lparr>logits = replicate n (replicate n_classes 0), labels = replicate n 0, i = 0\<rparr>"

definition get_logits_targets ::
  "('x list \<Rightarrow> py_error + 'a::zero list list) \<Rightarrow> 'x loader \<Rightarrow> py_error + 'a list list \<times> int list" where
  "get_logits_targets model loader =
     (let st0 = initial_state (dataset_len loader)
      in case run_batches model (batches loader) st0 of
           Inl e \<Rightarrow> Inl e
         | Inr st \<Rightarrow> Inr (logits st, labels st))"

text \<open>
  The number of examples in a list of batches, and the batches on which the
  network returns one row of \<open>n_classes\<close> scores for each input and the labels
  are one for each input.
\<close>

definition examples_in :: "('x list \<times> int list) list \<Rightarrow> nat" where
  "examples_in bs = sum_list (map (\<lambda>(x, targets). length x) bs)"

definition well_shaped :: "('x list \<Rightarrow> py_error + 'a list list) \<Rightarrow> ('x list \<times> int list) list \<Rightarrow> bool" where
  "well_shaped model bs =
     (\<forall>(x, targets)\<in>set bs.
        length targets = length x \<and>
        (\<exists>rows. model x = Inr rows \<and> length rows = length x \<and> (\<forall>r\<in>set rows. length r = n_classes)))"

section \<open>get\_logits\_dataset\<close>

text \<open>
  \<^verbatim>\<open>get_logits_dataset\<close> (utils.py, lines 199 to 236) returns the dataset of
  scores and labels of a model on a dataset, from the cache file when there is one
  and from the network otherwise, in which case it writes the cache file.

  The file system is a map from paths to the contents of the regular files.
  Directories are not modelled: \<^verbatim>\<open>os.makedirs(..., exist_ok=True)\<close> changes no
  regular file, and failures of it or of \<^verbatim>\<open>open(fname, 'wb')\<close> (permissions, a
  full disk, a directory at the path of the file) are left out.
\<close>

type_synonym 'a tensor_dataset = "'a list list \<times> int list"

type_synonym 'b file_system = "string \<rightharpoonup> 'b"

text \<open>
  What the function calls outside the repository. \<open>network a\<close> is the pretrained
  network that \<^verbatim>\<open>get_model\<close> builds for the architecture \<open>a\<close>, as in
  \<^verbatim>\<open>get_logits_targets\<close>. \<open>image_folder path\<close> is the list of images and labels
  that \<^verbatim>\<open>ImageFolder(datasetpath, transform)\<close> yields in its order, each image
  after the fixed preprocessing, or the exception raised when the folder cannot be
  read. \<open>pickle_dumps\<close> and \<open>pickle_loads\<close> are \<^verbatim>\<open>pickle.dump\<close> and
  \<^verbatim>\<open>pickle.load\<close> on the bytes of a file; \<^verbatim>\<open>pickle.load\<close> raises on bytes that
  are not a pickle.
\<close>

record ('x, 'a, 'b) env =
  network :: "arch \<Rightarrow> 'x list \<Rightarrow> py_error + 'a list list"
  image_folder :: "string \<Rightarrow> py_error + ('x \<times> int) list"
  pickle_dumps :: "'a tensor_dataset \<Rightarrow> 'b"
  pickle_loads :: "'b \<Rightarrow> py_error + 'a tensor_dataset"

text \<open>
  \<^verbatim>\<open>DataLoader(dataset, batch_size=32, shuffle=False, pin_memory=True)\<close>: the
  examples in order, in batches of 32, the last batch shorter when the number of
  examples is not a multiple of 32. A batch is the list of its images and the list
  of its labels.
\<close>

fun chunks :: "nat \<Rightarrow> 'a list \<Rightarrow> 'a list list" where
  "chunks n xs = (if n = 0 \<or> xs = [] then [] else take n xs # chunks n (drop n xs))"

declare chunks.simps [simp del]

definition data_loader :: "('x \<times> int) list \<Rightarrow> 'x loader" where
  "data_loader dataset =
     \<lparr>dataset_len = length dataset,
      batches = map (\<lambda>c. (map fst c, map snd c)) (chunks 32 dataset)\<rparr>"

text \<open>
  \<^verbatim>\<open>fname = cache + datasetname + '/' + modelname + '.pkl'\<close>.
\<close>

definition cache_path :: "string \<Rightarrow> string \<Rightarrow> string \<Rightarrow> string" where
  "cache_path cache datasetname modelname = cache @ datasetname @ ''/'' @ modelname @ ''.pkl''"

text \<open>
  The function returns its result, or the exception it raises, and the file system
  it leaves. \<^verbatim>\<open>os.path.exists(fname)\<close> is true when the map has an entry at
  \<open>fname\<close>; then the function returns what \<^verbatim>\<open>pickle.load\<close> returns or raises,
  there is no \<^verbatim>\<open>try\<close> around it.
\<close>

definition get_logits_dataset ::
  "('x, 'a::zero, 'b) env \<Rightarrow> string \<Rightarrow> string \<Rightarrow> string \<Rightarrow> string \<Rightarrow> 'b file_system
   \<Rightarrow> (py_error + 'a tensor_dataset) \<times> 'b file_system" where
  "get_logits_dataset env modelname datasetname datasetpath cache fs =
     (let fname = cache_path cache datasetname modelname in
      case fs fname of
        Some bytes \<Rightarrow> (pickle_loads env bytes, fs)
      | None \<Rightarrow>
          (case get_model modelname of Inl e \<Rightarrow> (Inl e, fs) | Inr model \<Rightarrow>
           case image_folder env datasetpath of Inl e \<Rightarrow> (Inl e, fs) | Inr dataset \<Rightarrow>
           case get_logits_targets (network env model) (data_loader dataset) of Inl e \<Rightarrow> (Inl e, fs)
           | Inr dataset_logits \<Rightarrow>
               (Inr dataset_logits, fs(fname \<mapsto> pickle_dumps env dataset_logits))))"

text \<open>
  A caller that calls the function \<open>n\<close> times in a row with the same arguments:
  the results in order and the file system after the last call.
\<close>

fun repeat_calls ::
  "nat \<Rightarrow> ('x, 'a::zero, 'b) env \<Rightarrow> string \<Rightarrow> string \<Rightarrow> string \<Rightarrow> string \<Rightarrow> 'b file_system
   \<Rightarrow> (py_error + 'a tensor_dataset) list \<times> 'b file_system" where
  "repeat_calls 0 env modelname datasetname datasetpath cache fs = ([], fs)"
| "repeat_calls (Suc n) env modelname datasetname datasetpath cache fs =
     (let (r, fs1) = get_logits_dataset env modelname datasetname datasetpath cache fs;
          (rs, fs2) = repeat_calls n env modelname datasetname datasetpath cache fs1
      in (r # rs, fs2))"

section \<open>Theorems\<close>

subsection \<open>AverageMeter\<close>




lemma update_no_error:
  "count_m m + n \<noteq> 0 \<Longrightarrow> fst (update m v n) = None"
  by (simp add: update_def Let_def)




lemma weighted_total_snoc: "weighted_total (us @ [(v, n)]) = weighted_total us + v * of_int n"
  by (simp add: weighted_total_def)



subsection \<open>Model selection\<close>

text \<open>
  Claim C3. \<^verbatim>\<open>get_model\<close> raises its unsupported-model exception (Python's
  \<^verbatim>\<open>NotImplementedError\<close>) for exactly the names that are not among the nine
  recognised identifiers, and it raises nothing else.
\<close>

theorem get_model_raises_iff_unrecognized:
  "(get_model modelname = Inl NotImplementedError) = (modelname \<notin> set recognized_models) \<and>
   (\<forall>e. get_model modelname = Inl e \<longrightarrow> e = NotImplementedError)"
  by (simp add: get_model_def recognized_models_def)

theorem get_model_raises_iff_unrecognized_witness:
  "get_model ''AlexNet'' = Inl NotImplementedError \<and> ''AlexNet'' \<notin> set recognized_models \<and>
   get_model ''resnet18'' = Inl NotImplementedError \<and>
   get_model ''VGG16'' = Inr vgg16 \<and> ''VGG16'' \<in> set recognized_models"
  using get_model_raises_iff_unrecognized [of "''AlexNet''"]
    get_model_raises_iff_unrecognized [of "''resnet18''"]
    get_model_raises_iff_unrecognized [of "''VGG16''"]
  by (simp add: get_model_def recognized_models_def)

subsection \<open>Floating-point rounding\<close>

text \<open>
  Rounding is monotone, leaves the floats of the format unchanged, and in the
  normal range is within half a unit in the last place of its argument. The
  lemmas \<open>round_fin_near\<close> and \<open>round_fin_tie\<close> evaluate it at a given
  argument from its binade and the nearest multiple of the spacing.
\<close>

lemma rne_int: "rne (of_int n) = n"
  by (simp add: rne_def)

lemma rne_floor: "\<lfloor>q\<rfloor> \<le> rne q \<and> rne q \<le> \<lfloor>q\<rfloor> + 1"
  by (simp add: rne_def Let_def)

lemma rne_mono: "a \<le> b \<Longrightarrow> rne a \<le> rne b"
proof -
  assume ab: "a \<le> b"
  then have fl: "\<lfloor>a\<rfloor> \<le> \<lfloor>b\<rfloor>" by (rule floor_mono)
  show ?thesis
  proof (cases "\<lfloor>a\<rfloor> = \<lfloor>b\<rfloor>")
    case True
    then have "a - of_int \<lfloor>a\<rfloor> \<le> b - of_int \<lfloor>b\<rfloor>" using ab by simp
    then show ?thesis using True by (auto simp: rne_def Let_def)
  next
    case False
    with fl have "\<lfloor>a\<rfloor> + 1 \<le> \<lfloor>b\<rfloor>" by simp
    then show ?thesis using rne_floor [of a] rne_floor [of b] by linarith
  qed
qed

lemma rne_err: "\<bar>of_int (rne q) - q\<bar> \<le> 1 / 2"
proof -
  have "of_int \<lfloor>q\<rfloor> \<le> q" "q < of_int \<lfloor>q\<rfloor> + 1" by linarith+
  then show ?thesis by (auto simp: rne_def Let_def)
qed

lemma pow2_pos: "0 < (2::rat) powi e"
  by simp

lemma pow2_mono: "a \<le> b \<Longrightarrow> (2::rat) powi a \<le> 2 powi b"
  by (rule power_int_increasing) simp_all

lemma pow2_strict_mono: "a < b \<Longrightarrow> (2::rat) powi a < 2 powi b"
  by (rule power_int_strict_increasing) simp_all

lemma pow2_add: "(2::rat) powi (a + b) = 2 powi a * 2 powi b"
  by (rule power_int_add) simp

lemma pow2_diff: "(2::rat) powi (a - b) = 2 powi a / 2 powi b"
  by (rule power_int_diff) simp

lemma pow2_Suc: "(2::rat) powi (a + 1) = 2 * 2 powi a"
  by (simp add: pow2_add)

lemma binade_bounds:
  assumes "0 < x"
  shows "2 powi (binade x) \<le> x \<and> x < 2 powi (binade x + 1)"
proof (cases "1 \<le> x")
  case True
  let ?m = "\<lfloor>x\<rfloor>"
  from True have m: "0 < ?m" by simp
  let ?b = "bitlen ?m"
  from bitlen_bounds [OF m] have lo: "2 ^ nat (?b - 1) \<le> ?m" and hi: "?m < 2 ^ nat ?b" by simp_all
  have b1: "1 \<le> ?b" using m by (simp add: bitlen_alt_def)
  have e: "binade x = ?b - 1" using True by (simp add: binade_def)
  have "(2::rat) powi (?b - 1) = of_int (2 ^ nat (?b - 1))"
    using b1 by (simp add: power_int_def)
  also have "\<dots> \<le> of_int ?m" using lo by (simp only: of_int_le_iff)
  also have "\<dots> \<le> x" by simp
  finally have L: "2 powi (binade x) \<le> x" by (simp only: e)
  have "?m + 1 \<le> 2 ^ nat ?b" using hi by simp
  then have "(of_int (?m + 1) :: rat) \<le> of_int (2 ^ nat ?b)" by (simp only: of_int_le_iff)
  moreover have "x < of_int (?m + 1)" by linarith
  ultimately have "x < of_int (2 ^ nat ?b)" by linarith
  also have "\<dots> = (2::rat) powi ?b" using b1 by (simp add: power_int_def)
  finally have "x < 2 powi (binade x + 1)" by (simp add: e)
  with L show ?thesis by simp
next
  case False
  then have x1: "x < 1" by simp
  let ?c = "\<lceil>1 / x\<rceil>"
  let ?m = "?c - 1"
  have inv: "1 < 1 / x" using assms x1 by simp
  then have "1 < ?c" by linarith
  then have m: "0 < ?m" by simp
  let ?b = "bitlen ?m"
  from bitlen_bounds [OF m] have lo: "2 ^ nat (?b - 1) \<le> ?m" and hi: "?m < 2 ^ nat ?b" by simp_all
  have b1: "1 \<le> ?b" using m by (simp add: bitlen_alt_def)
  have e: "binade x = - ?b" using False by (simp add: binade_def)
  have "?c \<le> 2 ^ nat ?b" using hi by simp
  then have "(of_int ?c :: rat) \<le> of_int (2 ^ nat ?b)" by (simp only: of_int_le_iff)
  moreover have "1 / x \<le> of_int ?c" by linarith
  ultimately have "1 / x \<le> of_int (2 ^ nat ?b)" by linarith
  then have "1 / x \<le> 2 ^ nat ?b" by simp
  then have "1 \<le> 2 ^ nat ?b * x" using assms by (simp add: pos_divide_le_eq)
  then have "1 / 2 ^ nat ?b \<le> x" by (simp add: pos_divide_le_eq mult.commute)
  moreover have "(2::rat) powi (- ?b) = 1 / 2 ^ nat ?b"
    using b1 by (simp add: power_int_def inverse_eq_divide power_one_over)
  ultimately have L: "2 powi (binade x) \<le> x" by (simp only: e)
  have "(of_int (2 ^ nat (?b - 1)) :: rat) \<le> of_int ?m" using lo by (simp only: of_int_le_iff)
  moreover have "of_int ?m < 1 / x" by linarith
  ultimately have "2 ^ nat (?b - 1) < 1 / x" by simp
  then have "2 ^ nat (?b - 1) * x < 1" using assms by (simp add: pos_less_divide_eq)
  then have "x < 1 / 2 ^ nat (?b - 1)" by (simp add: pos_less_divide_eq mult.commute)
  moreover have "(2::rat) powi (- ?b + 1) = 1 / 2 ^ nat (?b - 1)"
  proof (cases "?b = 1")
    case True
    then show ?thesis by simp
  next
    case False
    with b1 have "- ?b + 1 < 0" by simp
    then show ?thesis by (simp add: power_int_def inverse_eq_divide power_one_over)
  qed
  ultimately have "x < 2 powi (binade x + 1)" by (simp only: e)
  with L show ?thesis by simp
qed

lemma binade_unique:
  assumes "2 powi e \<le> x" and "x < 2 powi (e + 1)"
  shows "binade x = e"
proof -
  have x: "0 < x" using assms(1) pow2_pos [of e] by linarith
  note b = binade_bounds [OF x]
  have "\<not> binade x < e"
  proof
    assume "binade x < e"
    then have "binade x + 1 \<le> e" by simp
    then have "(2::rat) powi (binade x + 1) \<le> 2 powi e" by (rule pow2_mono)
    with b assms(1) show False by linarith
  qed
  moreover have "\<not> e < binade x"
  proof
    assume "e < binade x"
    then have "e + 1 \<le> binade x" by simp
    then have "(2::rat) powi (e + 1) \<le> 2 powi (binade x)" by (rule pow2_mono)
    with b assms(2) show False by linarith
  qed
  ultimately show ?thesis by simp
qed

lemma binade_mono:
  assumes "0 < x" and "x \<le> y"
  shows "binade x \<le> binade y"
proof (rule ccontr)
  assume "\<not> binade x \<le> binade y"
  then have "binade y + 1 \<le> binade x" by simp
  then have "(2::rat) powi (binade y + 1) \<le> 2 powi (binade x)" by (rule pow2_mono)
  moreover have "0 < y" using assms by simp
  ultimately show False
    using binade_bounds [OF assms(1)] binade_bounds [OF \<open>0 < y\<close>] assms(2) by linarith
qed

lemma ulp_pos: "0 < ulp fm x"
  by (simp add: ulp_def)

lemma ulp_neg: "ulp fm (- x) = ulp fm x"
  by (simp add: ulp_def)

lemma round_fin_0: "round_fin fm 0 = 0"
  by (simp add: round_fin_def)

lemma round_fin_neg: "round_fin fm (- x) = - round_fin fm x"
  by (simp add: round_fin_def ulp_neg sgn_minus)

lemma round_fin_pos_eq:
  "0 < x \<Longrightarrow> round_fin fm x = of_int (rne (x / ulp fm x)) * ulp fm x"
  by (simp add: round_fin_def)

lemma pow2_nat: "0 \<le> k \<Longrightarrow> (2::rat) powi k = of_int (2 ^ nat k)"
  by (simp add: power_int_def)

lemma pow2_mult_eq: "a + b = c \<Longrightarrow> (2::rat) powi a * 2 powi b = 2 powi c"
  using pow2_add [of a b] by simp

lemma pow2_div_eq: "a - b = c \<Longrightarrow> (2::rat) powi a / 2 powi b = 2 powi c"
  using pow2_diff [of a b] by simp

lemma rne_nonneg: "0 \<le> q \<Longrightarrow> 0 \<le> rne q"
  using rne_mono [of 0 q] rne_int [of 0] by simp

lemma round_fin_nonneg: "0 \<le> x \<Longrightarrow> 0 \<le> round_fin fm x"
proof (cases "x = 0")
  case True
  then show ?thesis by (simp add: round_fin_0)
next
  case False
  assume "0 \<le> x"
  with False have x: "0 < x" by simp
  have "0 \<le> x / ulp fm x" using x ulp_pos [of fm x] by simp
  then have "0 \<le> rne (x / ulp fm x)" by (rule rne_nonneg)
  then show ?thesis using ulp_pos [of fm x] by (simp add: round_fin_pos_eq [OF x])
qed

lemma ulp_pos_eq:
  "0 < x \<Longrightarrow> ulp fm x = 2 powi (max (binade x) (emin fm) - (int (prec fm) - 1))"
  by (simp add: ulp_def)

lemma rne_ulp_le:
  assumes x: "0 < x"
  shows "rne (x / ulp fm x) \<le> 2 ^ prec fm"
proof -
  let ?e = "max (binade x) (emin fm)"
  let ?p = "int (prec fm)"
  let ?u = "ulp fm x"
  have u: "?u = 2 powi (?e - (?p - 1))" using x by (rule ulp_pos_eq)
  have pu: "2 powi ?p * ?u = 2 powi (?e + 1)"
    unfolding u by (rule pow2_mult_eq) simp
  have "x < 2 powi (binade x + 1)" using binade_bounds [OF x] by simp
  also have "\<dots> \<le> 2 powi (?e + 1)" by (rule pow2_mono) simp
  finally have "x < 2 powi ?p * ?u" by (simp only: pu)
  then have "x / ?u < 2 powi ?p" using ulp_pos [of fm x] by (simp add: pos_divide_less_eq)
  then have "x / ?u \<le> of_int (2 ^ nat ?p)" by (simp add: pow2_nat)
  then have "rne (x / ?u) \<le> rne (of_int (2 ^ nat ?p))" by (rule rne_mono)
  then show ?thesis by (simp only: rne_int nat_int)
qed

lemma round_fin_upper:
  assumes x: "0 < x" and e: "max (binade x) (emin fm) \<le> e"
  shows "round_fin fm x \<le> 2 powi (e + 1)"
proof -
  let ?e = "max (binade x) (emin fm)"
  let ?p = "int (prec fm)"
  let ?u = "ulp fm x"
  have u: "?u = 2 powi (?e - (?p - 1))" using x by (rule ulp_pos_eq)
  have pu: "2 powi ?p * ?u = 2 powi (?e + 1)"
    unfolding u by (rule pow2_mult_eq) simp
  have "(of_int (rne (x / ?u)) :: rat) \<le> of_int (2 ^ prec fm)"
    using rne_ulp_le [OF x] by (simp only: of_int_le_iff)
  also have "\<dots> = 2 powi ?p" by (simp add: power_int_def)
  finally have "of_int (rne (x / ?u)) * ?u \<le> 2 powi ?p * ?u"
    using ulp_pos [of fm x] by (simp only: mult_right_mono less_imp_le)
  also have "\<dots> = 2 powi (?e + 1)" by (rule pu)
  also have "\<dots> \<le> 2 powi (e + 1)" using e by (intro pow2_mono) simp
  finally show ?thesis by (simp only: round_fin_pos_eq [OF x])
qed

lemma round_fin_lower:
  assumes v: "valid_format fm" and x: "0 < x" and e: "emin fm \<le> binade x"
  shows "2 powi (binade x) \<le> round_fin fm x"
proof -
  let ?e = "binade x"
  let ?p = "int (prec fm)"
  let ?u = "ulp fm x"
  have p: "0 \<le> ?p - 1" using v by (simp add: valid_format_def)
  have u: "?u = 2 powi (?e - (?p - 1))" using e by (simp add: ulp_pos_eq [OF x] max_def)
  have pu: "2 powi (?p - 1) * ?u = 2 powi ?e"
    unfolding u by (rule pow2_mult_eq) simp
  also have "\<dots> \<le> x" using binade_bounds [OF x] by simp
  finally have "2 powi (?p - 1) \<le> x / ?u" using ulp_pos [of fm x] by (simp add: pos_le_divide_eq)
  then have "of_int (2 ^ nat (?p - 1)) \<le> x / ?u" using p by (simp only: pow2_nat)
  then have "rne (of_int (2 ^ nat (?p - 1))) \<le> rne (x / ?u)" by (rule rne_mono)
  then have "2 ^ nat (?p - 1) \<le> rne (x / ?u)" by (simp only: rne_int)
  then have "(of_int (2 ^ nat (?p - 1)) :: rat) \<le> of_int (rne (x / ?u))" by (simp only: of_int_le_iff)
  then have "2 powi (?p - 1) \<le> (of_int (rne (x / ?u)) :: rat)" using p by (simp only: pow2_nat)
  then have "2 powi (?p - 1) * ?u \<le> of_int (rne (x / ?u)) * ?u"
    using ulp_pos [of fm x] by (simp add: mult_right_mono)
  then show ?thesis by (simp only: round_fin_pos_eq [OF x] pu)
qed

lemma round_fin_mono_pos:
  assumes v: "valid_format fm" and x: "0 < x" and xy: "x \<le> y"
  shows "round_fin fm x \<le> round_fin fm y"
proof -
  have y: "0 < y" using x xy by simp
  let ?ex = "max (binade x) (emin fm)"
  let ?ey = "max (binade y) (emin fm)"
  have bm: "binade x \<le> binade y" using x xy by (rule binade_mono)
  then have le: "?ex \<le> ?ey" by simp
  show ?thesis
  proof (cases "?ex = ?ey")
    case True
    then have u: "ulp fm x = ulp fm y" by (simp only: ulp_pos_eq [OF x] ulp_pos_eq [OF y])
    have "x / ulp fm y \<le> y / ulp fm y" using xy ulp_pos [of fm y] by (simp add: divide_right_mono)
    then have "rne (x / ulp fm y) \<le> rne (y / ulp fm y)" by (rule rne_mono)
    then have "(of_int (rne (x / ulp fm y)) :: rat) \<le> of_int (rne (y / ulp fm y))"
      by (simp only: of_int_le_iff)
    then have "of_int (rne (x / ulp fm y)) * ulp fm y \<le> of_int (rne (y / ulp fm y)) * ulp fm y"
      using ulp_pos [of fm y] by (simp add: mult_right_mono)
    then show ?thesis by (simp only: round_fin_pos_eq [OF x] round_fin_pos_eq [OF y] u)
  next
    case False
    from le False have lt: "?ex < ?ey" by (rule le_neq_trans)
    have ey: "?ey = binade y" and em: "emin fm \<le> binade y" using lt bm by linarith+
    have "round_fin fm x \<le> 2 powi (?ex + 1)" using x by (rule round_fin_upper) simp
    also have "\<dots> \<le> 2 powi (binade y)"
    proof (rule pow2_mono)
      show "?ex + 1 \<le> binade y" using lt ey by linarith
    qed
    also have "\<dots> \<le> round_fin fm y" using v y em by (rule round_fin_lower)
    finally show ?thesis .
  qed
qed

lemma round_fin_mono:
  assumes v: "valid_format fm" and xy: "x \<le> y"
  shows "round_fin fm x \<le> round_fin fm y"
proof -
  consider "0 < x" | "x \<le> 0" "0 \<le> y" | "y < 0" by linarith
  then show ?thesis
  proof cases
    case 1
    with v xy show ?thesis by (intro round_fin_mono_pos)
  next
    case 2
    have "0 \<le> round_fin fm (- x)" using 2(1) by (intro round_fin_nonneg) simp
    then have "round_fin fm x \<le> 0" by (simp add: round_fin_neg)
    also have "0 \<le> round_fin fm y" using 2(2) by (rule round_fin_nonneg)
    finally show ?thesis .
  next
    case 3
    then have "0 < - y" "- y \<le> - x" using xy by simp_all
    with v have "round_fin fm (- y) \<le> round_fin fm (- x)" by (intro round_fin_mono_pos)
    then show ?thesis by (simp add: round_fin_neg)
  qed
qed

lemma round_fin_exact:
  assumes "0 < y" and "y / ulp fm y = of_int m"
  shows "round_fin fm y = y"
proof -
  have "round_fin fm y = of_int (rne (of_int m)) * ulp fm y"
    by (simp only: round_fin_pos_eq [OF assms(1)] assms(2))
  also have "\<dots> = y / ulp fm y * ulp fm y" by (simp only: rne_int assms(2))
  also have "\<dots> = y" using ulp_pos [of fm y] by simp
  finally show ?thesis .
qed

lemma round_fin_grid_pos:
  assumes v: "valid_format fm" and n: "0 < n" and np: "n \<le> 2 ^ prec fm"
    and k: "emin fm - (int (prec fm) - 1) \<le> k"
  shows "round_fin fm (of_int n * 2 powi k) = of_int n * 2 powi k"
proof -
  let ?p = "int (prec fm)"
  let ?y = "of_int n * (2::rat) powi k"
  have y: "0 < ?y" using n by simp
  have p: "0 \<le> ?p - 1" using v by (simp add: valid_format_def)
  show ?thesis
  proof (cases "n = 2 ^ prec fm")
    case True
    have "(of_int n :: rat) = 2 powi ?p" by (simp add: True power_int_def)
    then have yp: "?y = 2 powi (?p + k)" by (simp add: pow2_add)
    have b: "binade ?y = ?p + k" unfolding yp by (rule binade_unique) (simp_all add: pow2_strict_mono)
    have "emin fm \<le> ?p + k" using k by simp
    then have u: "ulp fm ?y = 2 powi (k + 1)" by (simp add: ulp_pos_eq [OF y] b max_def)
    have "?y / ulp fm ?y = 2 powi (?p + k) / 2 powi (k + 1)" by (simp only: u) (simp only: yp)
    also have "\<dots> = 2 powi (?p - 1)" by (rule pow2_div_eq) simp
    also have "\<dots> = of_int (2 ^ nat (?p - 1))" using p by (rule pow2_nat)
    finally show ?thesis using y by (intro round_fin_exact)
  next
    case False
    with np have "n < 2 ^ prec fm" by simp
    then have "(of_int n :: rat) < of_int (2 ^ prec fm)" by (simp only: of_int_less_iff)
    then have "(of_int n :: rat) < 2 powi ?p" by (simp add: power_int_def)
    then have "?y < 2 powi ?p * 2 powi k" by simp
    then have yl: "?y < 2 powi (?p + k)" by (simp add: pow2_add)
    have bl: "binade ?y < ?p + k"
    proof (rule ccontr)
      assume "\<not> binade ?y < ?p + k"
      then have "(2::rat) powi (?p + k) \<le> 2 powi (binade ?y)" by (intro pow2_mono) simp
      with binade_bounds [OF y] yl show False by linarith
    qed
    let ?j = "max (binade ?y) (emin fm) - (?p - 1)"
    have j: "?j \<le> k" using bl k by simp
    have u: "ulp fm ?y = 2 powi ?j" using y by (rule ulp_pos_eq)
    have "?y / ulp fm ?y = of_int n * (2 powi k / 2 powi ?j)" by (simp only: u) simp
    also have "\<dots> = of_int n * 2 powi (k - ?j)" by (simp only: pow2_diff)
    also have "\<dots> = of_int n * of_int (2 ^ nat (k - ?j))" using j by (simp only: pow2_nat)
    also have "\<dots> = of_int (n * 2 ^ nat (k - ?j))" by simp
    finally show ?thesis using y by (intro round_fin_exact)
  qed
qed

lemma round_fin_grid:
  assumes v: "valid_format fm" and np: "\<bar>n\<bar> \<le> 2 ^ prec fm"
    and k: "emin fm - (int (prec fm) - 1) \<le> k"
  shows "round_fin fm (of_int n * 2 powi k) = of_int n * 2 powi k"
proof -
  consider "n = 0" | "0 < n" | "n < 0" by linarith
  then show ?thesis
  proof cases
    case 1
    then show ?thesis by (simp add: round_fin_0)
  next
    case 2
    with np have "n \<le> 2 ^ prec fm" by simp
    with v 2 show ?thesis using k by (intro round_fin_grid_pos)
  next
    case 3
    with np have "0 < - n" "- n \<le> 2 ^ prec fm" by simp_all
    with v have "round_fin fm (of_int (- n) * 2 powi k) = of_int (- n) * 2 powi k"
      using k by (intro round_fin_grid_pos)
    then have "round_fin fm (- (of_int n * 2 powi k)) = - (of_int n * 2 powi k)" by simp
    then show ?thesis by (simp only: round_fin_neg neg_equal_iff_equal)
  qed
qed

lemma round_fin_on_grid_pos:
  assumes x: "0 < x"
  shows "\<exists>n k. round_fin fm x = of_int n * 2 powi k \<and> \<bar>n\<bar> \<le> 2 ^ prec fm \<and>
         emin fm - (int (prec fm) - 1) \<le> k"
proof -
  let ?n = "rne (x / ulp fm x)"
  let ?k = "max (binade x) (emin fm) - (int (prec fm) - 1)"
  have "0 \<le> x / ulp fm x" using x ulp_pos [of fm x] by simp
  then have "0 \<le> ?n" by (rule rne_nonneg)
  then have a: "\<bar>?n\<bar> \<le> 2 ^ prec fm" using rne_ulp_le [OF x, of fm] by simp
  have b: "round_fin fm x = of_int ?n * 2 powi ?k"
    by (simp only: round_fin_pos_eq [OF x] ulp_pos_eq [OF x])
  have c: "emin fm - (int (prec fm) - 1) \<le> ?k" by simp
  from a b c show ?thesis by blast
qed

lemma round_fin_on_grid:
  "\<exists>n k. round_fin fm x = of_int n * 2 powi k \<and> \<bar>n\<bar> \<le> 2 ^ prec fm \<and>
         emin fm - (int (prec fm) - 1) \<le> k"
proof -
  consider "x = 0" | "0 < x" | "x < 0" by linarith
  then show ?thesis
  proof cases
    case 1
    have "round_fin fm x = of_int 0 * 2 powi (emin fm - (int (prec fm) - 1))"
      by (simp add: 1 round_fin_0)
    then show ?thesis by (intro exI [of _ 0] exI [of _ "emin fm - (int (prec fm) - 1)"]) simp
  next
    case 2
    then show ?thesis by (rule round_fin_on_grid_pos)
  next
    case 3
    then have "0 < - x" by simp
    from round_fin_on_grid_pos [OF this, of fm] obtain n k where
      r: "round_fin fm (- x) = of_int n * 2 powi k" and n: "\<bar>n\<bar> \<le> 2 ^ prec fm"
      and k: "emin fm - (int (prec fm) - 1) \<le> k" by blast
    from r have "round_fin fm x = of_int (- n) * 2 powi k" by (simp add: round_fin_neg)
    moreover have "\<bar>- n\<bar> \<le> 2 ^ prec fm" using n by simp
    ultimately show ?thesis using k by blast
  qed
qed

lemma round_fin_idem:
  assumes "valid_format fm"
  shows "round_fin fm (round_fin fm x) = round_fin fm x"
proof -
  from round_fin_on_grid [of fm x] obtain n k where
    r: "round_fin fm x = of_int n * 2 powi k" and n: "\<bar>n\<bar> \<le> 2 ^ prec fm"
    and k: "emin fm - (int (prec fm) - 1) \<le> k" by blast
  show ?thesis unfolding r using assms n k by (rule round_fin_grid)
qed

lemma round_fin_err:
  assumes v: "valid_format fm" and x: "0 < x" and e: "emin fm \<le> binade x"
  shows "\<bar>round_fin fm x - x\<bar> \<le> x * 2 powi (- int (prec fm))"
proof -
  let ?e = "binade x"
  let ?p = "int (prec fm)"
  let ?u = "ulp fm x"
  have u: "?u = 2 powi (?e - (?p - 1))" using e by (simp add: ulp_pos_eq [OF x] max_def)
  have up: "0 < ?u" by (rule ulp_pos)
  have "\<bar>of_int (rne (x / ?u)) - x / ?u\<bar> \<le> 1 / 2" by (rule rne_err)
  then have "\<bar>of_int (rne (x / ?u)) - x / ?u\<bar> * ?u \<le> 1 / 2 * ?u"
    using up by (simp only: mult_right_mono less_imp_le)
  moreover have "\<bar>of_int (rne (x / ?u)) - x / ?u\<bar> * ?u = \<bar>of_int (rne (x / ?u)) * ?u - x\<bar>"
  proof -
    have "\<bar>of_int (rne (x / ?u)) - x / ?u\<bar> * ?u = \<bar>(of_int (rne (x / ?u)) - x / ?u) * ?u\<bar>"
      using up by (simp add: abs_mult)
    also have "(of_int (rne (x / ?u)) - x / ?u) * ?u = of_int (rne (x / ?u)) * ?u - x"
      using up by (simp add: left_diff_distrib)
    finally show ?thesis .
  qed
  ultimately have "\<bar>round_fin fm x - x\<bar> \<le> 1 / 2 * ?u"
    by (simp only: round_fin_pos_eq [OF x])
  also have "1 / 2 * ?u = 2 powi (- 1) * 2 powi (?e - (?p - 1))"
    by (simp add: u power_int_minus)
  also have "\<dots> = 2 powi ?e * 2 powi (- ?p)"
    by (simp only: pow2_add [symmetric]) simp
  also have "\<dots> \<le> x * 2 powi (- ?p)"
    using binade_bounds [OF x] by (intro mult_right_mono) simp_all
  finally show ?thesis .
qed

lemma round_fin_eval:
  assumes "2 powi e \<le> \<bar>x\<bar>" and "\<bar>x\<bar> < 2 powi (e + 1)"
  shows "round_fin fm x =
         sgn x * (of_int (rne (\<bar>x\<bar> / 2 powi (max e (emin fm) - (int (prec fm) - 1)))) *
                  2 powi (max e (emin fm) - (int (prec fm) - 1)))"
proof -
  have b: "binade \<bar>x\<bar> = e" using assms by (rule binade_unique)
  have "0 < \<bar>x\<bar>" using assms(1) pow2_pos [of e] by linarith
  then have "x \<noteq> 0" by simp
  then show ?thesis by (simp add: round_fin_def ulp_def b)
qed

lemma fl_of_Finite:
  assumes "\<bar>round_fin fm x\<bar> < 2 powi (emax fm + 1)"
  shows "fl_of fm x = Finite (round_fin fm x)"
  using assms by (auto simp: fl_of_def Let_def)

lemma fl_of_int:
  assumes v: "valid_format fm" and n: "\<bar>n\<bar> \<le> 2 ^ prec fm" and pe: "int (prec fm) \<le> emax fm"
  shows "fl_of fm (of_int n) = Finite (of_int n)"
proof -
  have k: "emin fm - (int (prec fm) - 1) \<le> 0"
    using v by (simp add: valid_format_def emin_def)
  have "round_fin fm (of_int n * 2 powi 0) = of_int n * 2 powi 0"
    using v n k by (rule round_fin_grid)
  then have r: "round_fin fm (of_int n) = of_int n" by simp
  have "\<bar>of_int n :: rat\<bar> = of_int \<bar>n\<bar>" by simp
  also have "\<dots> \<le> of_int (2 ^ prec fm)" using n by (simp only: of_int_le_iff)
  also have "\<dots> = 2 powi (int (prec fm))" by (simp add: power_int_def)
  also have "\<dots> < 2 powi (emax fm + 1)" using pe by (intro pow2_strict_mono) simp
  finally have "\<bar>round_fin fm (of_int n)\<bar> < 2 powi (emax fm + 1)" by (simp only: r)
  then show ?thesis by (simp only: fl_of_Finite r)
qed

lemma valid_binary64: "valid_format binary64"
  by (simp add: valid_format_def binary64_def)

lemma valid_binary32: "valid_format binary32"
  by (simp add: valid_format_def binary32_def)

lemma rne_eval:
  assumes "of_int n - 1 / 2 < q" and "q < of_int n + 1 / 2"
  shows "rne q = n"
proof -
  consider "of_int n \<le> q" | "q < of_int n" by linarith
  then show ?thesis
  proof cases
    case 1
    then have "\<lfloor>q\<rfloor> = n" using assms(2) by (intro floor_unique) simp_all
    then show ?thesis using assms(2) by (simp add: rne_def Let_def)
  next
    case 2
    then have f: "\<lfloor>q\<rfloor> = n - 1" using assms(1) by (intro floor_unique) simp_all
    then show ?thesis using assms(1) by (simp add: rne_def Let_def)
  qed
qed

lemma rne_tie_even:
  assumes "q = of_int n + 1 / 2" and "even n"
  shows "rne q = n"
proof -
  have "\<lfloor>q\<rfloor> = n" using assms(1) by (intro floor_unique) simp_all
  then show ?thesis using assms by (simp add: rne_def Let_def)
qed

lemma rne_tie_odd:
  assumes "q = of_int n - 1 / 2" and "even n"
  shows "rne q = n"
proof -
  have f: "\<lfloor>q\<rfloor> = n - 1" using assms(1) by (intro floor_unique) simp_all
  have "q - of_int (n - 1) = 1 / 2" using assms(1) by simp
  then show ?thesis using assms(2) by (simp add: rne_def Let_def f)
qed

lemma round_fin_near:
  assumes "2 powi e \<le> \<bar>x\<bar>" and "\<bar>x\<bar> < 2 powi (e + 1)"
    and "k = max e (emin fm) - (int (prec fm) - 1)"
    and "(of_int n - 1 / 2) * 2 powi k < \<bar>x\<bar>" and "\<bar>x\<bar> < (of_int n + 1 / 2) * 2 powi k"
  shows "round_fin fm x = sgn x * (of_int n * 2 powi k)"
proof -
  have "of_int n - 1 / 2 < \<bar>x\<bar> / 2 powi k" "\<bar>x\<bar> / 2 powi k < of_int n + 1 / 2"
    using assms(4,5) by (simp_all add: pos_less_divide_eq pos_divide_less_eq)
  then have "rne (\<bar>x\<bar> / 2 powi k) = n" by (rule rne_eval)
  then show ?thesis
    by (simp only: round_fin_eval [OF assms(1,2)] assms(3) [symmetric])
qed

lemma round_fin_tie:
  assumes "2 powi e \<le> \<bar>x\<bar>" and "\<bar>x\<bar> < 2 powi (e + 1)"
    and "k = max e (emin fm) - (int (prec fm) - 1)"
    and "\<bar>x\<bar> = (of_int n + 1 / 2) * 2 powi k \<or> \<bar>x\<bar> = (of_int n - 1 / 2) * 2 powi k" and "even n"
  shows "round_fin fm x = sgn x * (of_int n * 2 powi k)"
proof -
  have "\<bar>x\<bar> / 2 powi k = of_int n + 1 / 2 \<or> \<bar>x\<bar> / 2 powi k = of_int n - 1 / 2"
    using assms(4) by auto
  then have "rne (\<bar>x\<bar> / 2 powi k) = n"
    using rne_tie_even [OF _ assms(5)] rne_tie_odd [OF _ assms(5)] by blast
  then show ?thesis
    by (simp only: round_fin_eval [OF assms(1,2)] assms(3) [symmetric])
qed

lemma fl_le_Finite: "fl_le (Finite a) (Finite b) = (a \<le> b)"
  by (simp add: fl_le_def less_eq_fl_def)

lemma fl_le_trans: "fl_le a b \<Longrightarrow> fl_le b c \<Longrightarrow> fl_le a c"
  unfolding fl_le_def by (meson order_trans)

lemma fl_le_refl: "a \<noteq> NotANumber \<Longrightarrow> fl_le a a"
  by (simp add: fl_le_def)

lemma fl_le_zero_cases:
  assumes "fl_le (Finite 0) a"
  obtains x where "a = Finite x" "0 \<le> x" | "a = PosInf"
  using assms by (cases a) (auto simp: fl_le_def less_eq_fl_def)

lemma is_fl_Finite:
  assumes "is_fl fm (Finite x)"
  shows "round_fin fm x = x"
  using assms by (auto simp: is_fl_def fl_of_def Let_def split: if_splits)

lemma fl_of_is_fl:
  assumes v: "valid_format fm"
  shows "is_fl fm (fl_of fm z)"
proof (cases "fl_of fm z")
  case (Finite y)
  then have y: "y = round_fin fm z"
    and b: "\<not> 2 powi (emax fm + 1) \<le> y" "\<not> y \<le> - (2 powi (emax fm + 1))"
    by (auto simp: fl_of_def Let_def split: if_splits)
  have "round_fin fm y = y" unfolding y using v by (rule round_fin_idem)
  then have "fl_of fm y = Finite y" using b by (simp add: fl_of_def Let_def)
  then show ?thesis by (simp add: is_fl_def Finite)
qed (simp_all add: is_fl_def)

lemma fadd_is_fl:
  assumes v: "valid_format fm"
  shows "is_fl fm (fadd fm a b)"
proof (cases a; cases b)
  fix x y assume "a = Finite x" "b = Finite y"
  then show ?thesis using fl_of_is_fl [OF v] by simp
qed (simp_all add: is_fl_def)

lemma fl_of_ge:
  assumes v: "valid_format fm" and a: "is_fl fm (Finite a)" and a0: "0 \<le> a" and az: "a \<le> z"
  shows "fl_le (Finite a) (fl_of fm z)"
proof -
  have "round_fin fm a \<le> round_fin fm z" using v az by (rule round_fin_mono)
  then have le: "a \<le> round_fin fm z" by (simp only: is_fl_Finite [OF a])
  have p: "0 < (2::rat) powi (emax fm + 1)" by (rule pow2_pos)
  show ?thesis
    using le a0 p by (auto simp: fl_of_def Let_def fl_le_def less_eq_fl_def)
qed

lemma fadd_nonneg:
  assumes v: "valid_format fm" and a: "is_fl fm a" and a0: "fl_le (Finite 0) a"
    and x0: "fl_le (Finite 0) x"
  shows "fl_le a (fadd fm a x)"
proof -
  from a0 show ?thesis
  proof (cases rule: fl_le_zero_cases)
    case (1 p)
    from x0 show ?thesis
    proof (cases rule: fl_le_zero_cases)
      case (1 q)
      have "p \<le> p + q" using 1(2) by simp
      with v a \<open>0 \<le> p\<close> have "fl_le (Finite p) (fl_of fm (p + q))"
        unfolding \<open>a = Finite p\<close> by (rule fl_of_ge)
      then show ?thesis by (simp add: \<open>a = Finite p\<close> 1(1))
    next
      case 2
      then show ?thesis by (simp add: \<open>a = Finite p\<close> fl_le_def less_eq_fl_def)
    qed
  next
    case 2
    from x0 show ?thesis
      by (cases rule: fl_le_zero_cases) (simp_all add: 2 fl_le_def)
  qed
qed

lemma round_fin_pow2:
  assumes v: "valid_format fm" and e: "emin fm - (int (prec fm) - 1) \<le> e"
  shows "round_fin fm (2 powi e) = 2 powi e"
proof -
  have "\<bar>1::int\<bar> \<le> 2 ^ prec fm" by simp
  with v have "round_fin fm (of_int 1 * 2 powi e) = of_int 1 * 2 powi e"
    using e by (rule round_fin_grid)
  then show ?thesis by simp
qed

lemma round_fin_abs_le:
  assumes v: "valid_format fm" and e: "emin fm - (int (prec fm) - 1) \<le> e"
    and x: "\<bar>x\<bar> \<le> 2 powi e"
  shows "\<bar>round_fin fm x\<bar> \<le> 2 powi e"
proof -
  note p = round_fin_pow2 [OF v e]
  have "x \<le> 2 powi e" using x by simp
  with v have "round_fin fm x \<le> round_fin fm (2 powi e)" by (rule round_fin_mono)
  then have u: "round_fin fm x \<le> 2 powi e" by (simp only: p)
  have "- (2 powi e) \<le> x" using x by simp
  with v have "round_fin fm (- (2 powi e)) \<le> round_fin fm x" by (rule round_fin_mono)
  then have "- (2 powi e) \<le> round_fin fm x" by (simp only: round_fin_neg p)
  with u show ?thesis by simp
qed

lemma fl_of_Finite_bound:
  assumes v: "valid_format fm" and e: "emin fm - (int (prec fm) - 1) \<le> e"
    and ee: "e \<le> emax fm" and x: "\<bar>x\<bar> \<le> 2 powi e"
  shows "fl_of fm x = Finite (round_fin fm x)"
proof -
  have "\<bar>round_fin fm x\<bar> \<le> 2 powi e" using v e x by (rule round_fin_abs_le)
  also have "\<dots> < 2 powi (emax fm + 1)" using ee by (intro pow2_strict_mono) simp
  finally show ?thesis by (rule fl_of_Finite)
qed

lemma binade_ge:
  assumes "2 powi e \<le> x"
  shows "e \<le> binade x"
proof -
  have "binade (2 powi e) = e" by (rule binade_unique) (simp_all add: pow2_strict_mono)
  moreover have "binade (2 powi e) \<le> binade x" using pow2_pos assms by (rule binade_mono)
  ultimately show ?thesis by simp
qed

lemma round_fin_ge_pow2:
  assumes v: "valid_format fm" and e: "emin fm \<le> e" and x: "2 powi e \<le> x"
  shows "2 powi e \<le> round_fin fm x"
proof -
  have x0: "0 < x" using x pow2_pos [of e] by linarith
  have b: "e \<le> binade x" using x by (rule binade_ge)
  then have "(2::rat) powi e \<le> 2 powi (binade x)" by (rule pow2_mono)
  also have "\<dots> \<le> round_fin fm x" using v x0 e b by (intro round_fin_lower) simp_all
  finally show ?thesis .
qed

lemma round_fin_rel_err:
  assumes v: "valid_format fm" and e: "emin fm \<le> e" and x: "2 powi e \<le> x"
  shows "\<bar>round_fin fm x - x\<bar> \<le> x * 2 powi (- int (prec fm))"
proof -
  have x0: "0 < x" using x pow2_pos [of e] by linarith
  have "e \<le> binade x" using x by (rule binade_ge)
  with e have "emin fm \<le> binade x" by simp
  with v x0 show ?thesis by (rule round_fin_err)
qed

lemma rel_err_compose:
  fixes a b c :: rat
  assumes b: "0 \<le> b" and d2: "0 \<le> d2" and ab: "\<bar>a - b\<bar> \<le> b * d1" and ca: "\<bar>c - a\<bar> \<le> a * d2"
  shows "\<bar>c - b\<bar> \<le> b * (d1 + d2 + d1 * d2)"
proof -
  have "a \<le> b + b * d1" using ab by linarith
  then have "a * d2 \<le> (b + b * d1) * d2" using d2 by (rule mult_right_mono)
  moreover have "\<bar>c - b\<bar> \<le> \<bar>c - a\<bar> + \<bar>a - b\<bar>" by linarith
  ultimately have "\<bar>c - b\<bar> \<le> (b + b * d1) * d2 + b * d1" using ab ca by linarith
  also have "\<dots> = b * (d1 + d2 + d1 * d2)" by (simp add: algebra_simps)
  finally show ?thesis .
qed

subsection \<open>sort\_sum\<close>

lemma cumsum_from_nondecreasing:
  assumes v: "valid_format fm"
  shows "is_fl fm acc \<Longrightarrow> fl_le (Finite 0) acc \<Longrightarrow> \<forall>x\<in>set xs. fl_le (Finite 0) x \<Longrightarrow>
         sorted_wrt fl_le (cumsum_from fm acc xs) \<and> (\<forall>y\<in>set (cumsum_from fm acc xs). fl_le acc y)"
proof (induction xs arbitrary: acc)
  case Nil
  then show ?case by simp
next
  case (Cons x xs)
  let ?b = "fadd fm acc x"
  have x0: "fl_le (Finite 0) x" and rest: "\<forall>z\<in>set xs. fl_le (Finite 0) z"
    using Cons.prems(3) by simp_all
  have step: "fl_le acc ?b" using v Cons.prems(1,2) x0 by (rule fadd_nonneg)
  have b0: "fl_le (Finite 0) ?b" using Cons.prems(2) step by (rule fl_le_trans)
  have bf: "is_fl fm ?b" using v by (rule fadd_is_fl)
  from Cons.IH [OF bf b0 rest]
  have s: "sorted_wrt fl_le (cumsum_from fm ?b xs)"
    and ge: "\<forall>y\<in>set (cumsum_from fm ?b xs). fl_le ?b y" by simp_all
  have "\<forall>y\<in>set (cumsum_from fm ?b xs). fl_le acc y"
    using ge step by (blast intro: fl_le_trans)
  then show ?case using s ge step by simp
qed

lemma np_cumsum_nondecreasing:
  assumes v: "valid_format fm" and all: "\<forall>x\<in>set xs. is_fl fm x \<and> fl_le (Finite 0) x"
  shows "sorted_wrt fl_le (np_cumsum fm xs)"
proof (cases xs)
  case Nil
  then show ?thesis by (simp add: np_cumsum_def)
next
  case (Cons x ys)
  from all Cons have "is_fl fm x" "fl_le (Finite 0) x" "\<forall>z\<in>set ys. fl_le (Finite 0) z" by simp_all
  from cumsum_from_nondecreasing [OF v this]
  show ?thesis by (simp add: np_cumsum_def Cons)
qed

lemma cumsum_from_length: "length (cumsum_from fm acc xs) = length xs"
  by (induction xs arbitrary: acc) simp_all

lemma np_cumsum_length: "length (np_cumsum fm xs) = length xs"
  by (cases xs) (simp_all add: np_cumsum_def cumsum_from_length)

lemma cumsum_from_last:
  "xs \<noteq> [] \<Longrightarrow> last (cumsum_from fm acc xs) = foldl (fadd fm) acc xs"
proof (induction xs arbitrary: acc)
  case Nil
  then show ?case by simp
next
  case (Cons x xs)
  show ?case
  proof (cases "xs = []")
    case True
    then show ?thesis by simp
  next
    case False
    then have "cumsum_from fm (fadd fm acc x) xs \<noteq> []"
      using cumsum_from_length [of fm "fadd fm acc x" xs] by (metis length_0_conv)
    then show ?thesis using Cons.IH [OF False] by simp
  qed
qed

lemma np_cumsum_last:
  assumes "xs \<noteq> []"
  shows "last (np_cumsum fm xs) = foldl (fadd fm) (hd xs) (tl xs)"
proof (cases xs)
  case Nil
  with assms show ?thesis by simp
next
  case (Cons x ys)
  show ?thesis
  proof (cases "ys = []")
    case True
    then show ?thesis by (simp add: np_cumsum_def Cons)
  next
    case False
    then have "cumsum_from fm x ys \<noteq> []"
      using cumsum_from_length [of fm x ys] by (metis length_0_conv)
    then show ?thesis using cumsum_from_last [OF False] by (simp add: np_cumsum_def Cons)
  qed
qed

lemma foldl_fadd_exact:
  "\<forall>j. 1 \<le> j \<and> j \<le> length ys \<longrightarrow> fl_of fm (a + sum_list (take j ys)) = Finite (a + sum_list (take j ys)) \<Longrightarrow>
   foldl (fadd fm) (Finite a) (map Finite ys) = Finite (a + sum_list ys)"
proof (induction ys arbitrary: a)
  case Nil
  then show ?case by simp
next
  case (Cons y ys)
  have "fl_of fm (a + sum_list (take 1 (y # ys))) = Finite (a + sum_list (take 1 (y # ys)))"
    using Cons.prems by (intro Cons.prems [rule_format]) simp
  then have first: "fl_of fm (a + y) = Finite (a + y)" by simp
  have "\<forall>j. 1 \<le> j \<and> j \<le> length ys \<longrightarrow>
          fl_of fm (a + y + sum_list (take j ys)) = Finite (a + y + sum_list (take j ys))"
  proof (intro allI impI)
    fix j assume j: "1 \<le> j \<and> j \<le> length ys"
    then have "1 \<le> Suc j \<and> Suc j \<le> length (y # ys)" by simp
    from Cons.prems [rule_format, OF this]
    show "fl_of fm (a + y + sum_list (take j ys)) = Finite (a + y + sum_list (take j ys))"
      by (simp add: add.assoc)
  qed
  from Cons.IH [OF this] show ?case by (simp add: first add.assoc)
qed

lemma sum_list_fl_val_perm:
  assumes "mset xs = mset ys"
  shows "sum_list (map fl_val xs) = sum_list (map fl_val ys)"
proof -
  have "sum_mset (mset (map fl_val xs)) = sum_mset (mset (map fl_val ys))"
    using assms by simp
  then show ?thesis by (simp only: sum_mset_sum_list)
qed

lemma map_Finite_fl_val:
  "\<forall>x\<in>set xs. is_finite x \<Longrightarrow> map Finite (map fl_val xs) = xs"
proof (induction xs)
  case Nil
  then show ?case by simp
next
  case (Cons x xs)
  then have "is_finite x" by simp
  then have "Finite (fl_val x) = x" by (cases x) (simp_all add: is_finite_def)
  then show ?case using Cons by simp
qed

lemma mset_argsort: "mset (argsort row) = mset [0..<length row]"
  by (simp add: argsort_def)

lemma argsort_values: "map (\<lambda>i. row ! i) (argsort row) = sort row"
proof -
  have "mset (map (\<lambda>i. row ! i) (argsort row)) = mset (map (\<lambda>i. row ! i) [0..<length row])"
    by (simp add: argsort_def)
  then have m: "mset (map (\<lambda>i. row ! i) (argsort row)) = mset row"
    by (simp add: map_nth)
  have "sorted (map (\<lambda>i. row ! i) (argsort row))"
    by (simp add: argsort_def)
  with m have "sort row = map (\<lambda>i. row ! i) (argsort row)"
    by (rule properties_for_sort)
  then show ?thesis by simp
qed

lemma rev_sort_nonincreasing_ieee:
  fixes row :: "fl list"
  assumes "NotANumber \<notin> set row"
  shows "sorted_wrt (\<lambda>a b. fl_le b a) (rev (sort row))"
proof -
  have s: "sorted_wrt (\<ge>) (rev (sort row))" by (simp add: sorted_wrt_rev)
  show ?thesis
  proof (rule sorted_wrt_mono_rel [OF _ s])
    fix a b assume "a \<in> set (rev (sort row))" "b \<in> set (rev (sort row))" "b \<le> a"
    then show "fl_le b a" using assms by (auto simp: fl_le_def)
  qed
qed

lemma fl_of_binary64_int:
  "\<bar>n\<bar> \<le> 2 ^ 53 \<Longrightarrow> fl_of binary64 (of_int n) = Finite (of_int n)"
  using fl_of_int [OF valid_binary64, of n] by (simp add: binary64_def)

lemma fl_of_binary64_tie: "fl_of binary64 (2 ^ 53 + 1) = Finite (2 ^ 53)"
proof -
  have r: "round_fin binary64 (2 ^ 53 + 1) = 2 ^ 53"
    using round_fin_tie [of 53 "2 ^ 53 + 1" 1 binary64 "2 ^ 52"]
    by (simp add: binary64_def emin_def power_int_def)
  have "\<bar>(2::rat) ^ 53\<bar> = 2 powi 53" by (simp add: power_int_def)
  also have "\<dots> < 2 powi (emax binary64 + 1)" by (rule pow2_strict_mono) (simp add: binary64_def)
  finally have "\<bar>round_fin binary64 (2 ^ 53 + 1)\<bar> < 2 powi (emax binary64 + 1)" by (simp only: r)
  then show ?thesis by (simp only: fl_of_Finite r)
qed

text \<open>
  Claim C1, as amended. For every row \<open>r\<close> of a matrix of floats: the row of
  \<open>I\<close> is a permutation of the column indices and the row of \<open>ordered\<close> is that
  row of scores read through \<open>I\<close>; when the row holds no NaN, the row of
  \<open>ordered\<close> is non-increasing; when all scores of the row are non-negative
  floats of the format, the row of \<open>cumsum\<close> is non-decreasing; the last entry of
  the row of \<open>cumsum\<close> is the sum of the sorted row accumulated from left to right
  in floating point, and it is the exact sum of the row of scores when the scores
  are finite and no partial sum of the sorted row is rounded.
\<close>

theorem sort_sum_rows:
  assumes v: "valid_format fm"
    and res: "sort_sum fm scores = (I, ordered, cumsum)" and r: "r < length scores"
  shows "mset (I ! r) = mset [0..<length (scores ! r)] \<and>
         ordered ! r = map (\<lambda>i. scores ! r ! i) (I ! r) \<and>
         mset (ordered ! r) = mset (scores ! r) \<and>
         (NotANumber \<notin> set (scores ! r) \<longrightarrow> sorted_wrt (\<lambda>a b. fl_le b a) (ordered ! r)) \<and>
         length (cumsum ! r) = length (scores ! r) \<and>
         ((\<forall>x\<in>set (scores ! r). is_fl fm x \<and> fl_le (Finite 0) x) \<longrightarrow> sorted_wrt fl_le (cumsum ! r)) \<and>
         (scores ! r \<noteq> [] \<longrightarrow>
            last (cumsum ! r) = foldl (fadd fm) (hd (ordered ! r)) (tl (ordered ! r))) \<and>
         (scores ! r \<noteq> [] \<and> (\<forall>x\<in>set (scores ! r). is_finite x) \<and>
          (\<forall>j. 1 \<le> j \<and> j \<le> length (scores ! r) \<longrightarrow>
             fl_of fm (sum_list (take j (map fl_val (ordered ! r)))) =
             Finite (sum_list (take j (map fl_val (ordered ! r))))) \<longrightarrow>
            last (cumsum ! r) = Finite (sum_list (map fl_val (scores ! r))))"
proof -
  let ?row = "scores ! r"
  let ?o = "rev (sort ?row)"
  from res r have I: "I ! r = rev (argsort ?row)"
    and o: "ordered ! r = ?o"
    and c: "cumsum ! r = np_cumsum fm ?o"
    by (auto simp: sort_sum_def Let_def)
  have so: "set ?o = set ?row" by simp
  have 1: "mset (I ! r) = mset [0..<length ?row]"
    by (simp add: I mset_argsort)
  have 2: "ordered ! r = map (\<lambda>i. ?row ! i) (I ! r)"
    by (simp only: o I rev_map [symmetric] argsort_values)
  have 3: "mset (ordered ! r) = mset ?row"
    by (simp add: o)
  have 4: "NotANumber \<notin> set ?row \<longrightarrow> sorted_wrt (\<lambda>a b. fl_le b a) (ordered ! r)"
    unfolding o by (intro impI rev_sort_nonincreasing_ieee)
  have 5: "length (cumsum ! r) = length ?row"
    by (simp add: c np_cumsum_length)
  have 6: "(\<forall>x\<in>set ?row. is_fl fm x \<and> fl_le (Finite 0) x) \<longrightarrow> sorted_wrt fl_le (cumsum ! r)"
  proof
    assume "\<forall>x\<in>set ?row. is_fl fm x \<and> fl_le (Finite 0) x"
    then have "\<forall>x\<in>set ?o. is_fl fm x \<and> fl_le (Finite 0) x" by (simp only: so)
    with v show "sorted_wrt fl_le (cumsum ! r)" unfolding c by (rule np_cumsum_nondecreasing)
  qed
  have ne: "?o \<noteq> []" if "?row \<noteq> []"
  proof -
    from that have "length ?o \<noteq> 0" by simp
    then show ?thesis by (simp only: length_0_conv not_False_eq_True)
  qed
  have 7: "?row \<noteq> [] \<longrightarrow> last (cumsum ! r) = foldl (fadd fm) (hd (ordered ! r)) (tl (ordered ! r))"
    unfolding c o using ne by (auto intro: np_cumsum_last)
  have 8: "?row \<noteq> [] \<and> (\<forall>x\<in>set ?row. is_finite x) \<and>
          (\<forall>j. 1 \<le> j \<and> j \<le> length ?row \<longrightarrow>
             fl_of fm (sum_list (take j (map fl_val (ordered ! r)))) =
             Finite (sum_list (take j (map fl_val (ordered ! r))))) \<longrightarrow>
            last (cumsum ! r) = Finite (sum_list (map fl_val ?row))"
  proof (intro impI, elim conjE)
    assume n: "?row \<noteq> []" and fin: "\<forall>x\<in>set ?row. is_finite x"
      and ex: "\<forall>j. 1 \<le> j \<and> j \<le> length ?row \<longrightarrow>
             fl_of fm (sum_list (take j (map fl_val (ordered ! r)))) =
             Finite (sum_list (take j (map fl_val (ordered ! r))))"
    let ?w = "map fl_val ?o"
    have fo: "\<forall>x\<in>set ?o. is_finite x" using fin by (simp only: so)
    have m: "map Finite ?w = ?o" using fo by (rule map_Finite_fl_val)
    obtain a ws where w: "?w = a # ws" using ne [OF n] by (cases ?w) simp_all
    have lw: "length ?w = length ?row" by simp
    have hd: "hd ?o = Finite a" and tl: "tl ?o = map Finite ws"
      using m w by (metis list.sel(1) list.simps(9), metis list.sel(3) list.simps(9))
    have pre: "\<forall>j. 1 \<le> j \<and> j \<le> length ws \<longrightarrow>
            fl_of fm (a + sum_list (take j ws)) = Finite (a + sum_list (take j ws))"
    proof (intro allI impI)
      fix j assume j: "1 \<le> j \<and> j \<le> length ws"
      have "length ws + 1 = length ?row" using lw w by simp
      with j have "1 \<le> Suc j \<and> Suc j \<le> length ?row" by simp
      from ex [rule_format, OF this]
      show "fl_of fm (a + sum_list (take j ws)) = Finite (a + sum_list (take j ws))"
        by (simp add: o w)
    qed
    have "last (cumsum ! r) = foldl (fadd fm) (Finite a) (map Finite ws)"
      using 7 n by (simp add: o hd tl)
    also have "\<dots> = Finite (a + sum_list ws)" using pre by (rule foldl_fadd_exact)
    also have "a + sum_list ws = sum_list ?w" by (simp add: w)
    also have "sum_list ?w = sum_list (map fl_val ?row)"
      by (rule sum_list_fl_val_perm) simp
    finally show "last (cumsum ! r) = Finite (sum_list (map fl_val ?row))" .
  qed
  from 1 2 3 4 5 6 7 8 show ?thesis by blast
qed

theorem sort_sum_rows_witness:
  "valid_format binary64 \<and>
   sort_sum binary64 [[Finite 2, Finite 0, Finite 1], [Finite 0, Finite 5, Finite 5]] =
     ([[0, 2, 1], [2, 1, 0]],
      [[Finite 2, Finite 1, Finite 0], [Finite 5, Finite 5, Finite 0]],
      [[Finite 2, Finite 3, Finite 3], [Finite 5, Finite 10, Finite 10]]) \<and>
   set [2, 1, 0 :: nat] = {0..<3} \<and>
   sorted_wrt (\<lambda>a b. fl_le b a) [Finite 5, Finite 5, Finite 0] \<and>
   sorted_wrt fl_le [Finite 5, Finite 10, Finite 10] \<and>
   last [Finite 5, Finite 10, Finite 10] = Finite (sum_list [0, 5, 5])"
proof -
  let ?scores = "[[Finite 2, Finite 0, Finite 1], [Finite 0, Finite 5, Finite 5]]"
  have a1: "argsort [Finite 2, Finite 0, Finite 1] = [1, 2, 0]" by code_simp
  have s1: "sort [Finite 2, Finite 0, Finite 1] = [Finite 0, Finite 1, Finite 2]" by code_simp
  have a2: "argsort [Finite 0, Finite 5, Finite 5] = [0, 1, 2]" by code_simp
  have s2: "sort [Finite 0, Finite 5, Finite 5] = [Finite 0, Finite 5, Finite 5]" by code_simp
  have f: "fl_of binary64 3 = Finite 3" "fl_of binary64 10 = Finite 10" "fl_of binary64 5 = Finite 5"
    "fl_of binary64 0 = Finite 0"
    using fl_of_binary64_int [of 3] fl_of_binary64_int [of 10] fl_of_binary64_int [of 5]
      fl_of_binary64_int [of 0] by simp_all
  have e: "sort_sum binary64 ?scores =
     ([[0, 2, 1], [2, 1, 0]],
      [[Finite 2, Finite 1, Finite 0], [Finite 5, Finite 5, Finite 0]],
      [[Finite 2, Finite 3, Finite 3], [Finite 5, Finite 10, Finite 10]])"
    by (simp add: sort_sum_def a1 s1 a2 s2 np_cumsum_def f less_eq_fl_def)
  have r: "(1::nat) < length ?scores" by simp
  note t = sort_sum_rows [OF valid_binary64 e r]
  have nn: "NotANumber \<notin> set (?scores ! 1)" by simp
  have pos: "\<forall>x\<in>set (?scores ! 1). is_fl binary64 x \<and> fl_le (Finite 0) x"
    by (simp add: is_fl_def f fl_le_Finite)
  have fin: "?scores ! 1 \<noteq> [] \<and> (\<forall>x\<in>set (?scores ! 1). is_finite x)"
    by (simp add: is_finite_def)
  have ex: "\<forall>j. 1 \<le> j \<and> j \<le> length (?scores ! 1) \<longrightarrow>
             fl_of binary64 (sum_list (take j (map fl_val ([[Finite 2, Finite 1, Finite 0], [Finite 5, Finite 5, Finite 0]] ! 1)))) =
             Finite (sum_list (take j (map fl_val ([[Finite 2, Finite 1, Finite 0], [Finite 5, Finite 5, Finite 0]] ! 1))))"
  proof (intro allI impI)
    fix j :: nat assume "1 \<le> j \<and> j \<le> length (?scores ! 1)"
    then have "j = 1 \<or> j = 2 \<or> j = 3" by auto
    then show "fl_of binary64 (sum_list (take j (map fl_val ([[Finite 2, Finite 1, Finite 0], [Finite 5, Finite 5, Finite 0]] ! 1)))) =
             Finite (sum_list (take j (map fl_val ([[Finite 2, Finite 1, Finite 0], [Finite 5, Finite 5, Finite 0]] ! 1))))"
      by (auto simp: f)
  qed
  from t nn pos fin ex
  have "mset ([[0, 2, 1], [2, 1, 0 :: nat]] ! 1) = mset [0..<length (?scores ! 1)]"
    and "sorted_wrt (\<lambda>a b. fl_le b a) ([[Finite 2, Finite 1, Finite 0], [Finite 5, Finite 5, Finite 0]] ! 1)"
    and "sorted_wrt fl_le ([[Finite 2, Finite 3, Finite 3], [Finite 5, Finite 10, Finite 10]] ! 1)"
    and "last ([[Finite 2, Finite 3, Finite 3], [Finite 5, Finite 10, Finite 10]] ! 1) =
         Finite (sum_list (map fl_val (?scores ! 1)))"
    by blast+
  then have "set [2, 1, 0 :: nat] = {0..<3}"
    and "sorted_wrt (\<lambda>a b. fl_le b a) [Finite 5, Finite 5, Finite 0]"
    and "sorted_wrt fl_le [Finite 5, Finite 10, Finite 10]"
    and "last [Finite 5, Finite 10, Finite 10] = Finite (sum_list [0, 5, 5])"
    by (auto dest: mset_eq_setD)
  with e valid_binary64 show ?thesis by blast
qed

text \<open>
  The claim as stated fails in two ways. On a row with a negative score the
  cumulative sums decrease: for \<open>[[1, -2]]\<close> they are \<open>[1, -1]\<close>. And the last
  cumulative sum is not the sum of the row when an addition rounds: in
  \<^verbatim>\<open>float64\<close> the row \<open>[1, 2\<^sup>5\<^sup>3, 1]\<close> has the cumulative sums
  \<open>[2\<^sup>5\<^sup>3, 2\<^sup>5\<^sup>3, 2\<^sup>5\<^sup>3]\<close>, its sum is \<open>2\<^sup>5\<^sup>3 + 2\<close>.
\<close>

theorem sort_sum_cumsum_counterexample:
  "sort_sum binary64 [[Finite 1, Finite (- 2)]] =
     ([[0, 1]], [[Finite 1, Finite (- 2)]], [[Finite 1, Finite (- 1)]]) \<and>
   \<not> sorted_wrt fl_le [Finite 1, Finite (- 1)] \<and>
   sort_sum binary64 [[Finite 1, Finite (2 ^ 53), Finite 1]] =
     ([[1, 2, 0]], [[Finite (2 ^ 53), Finite 1, Finite 1]],
      [[Finite (2 ^ 53), Finite (2 ^ 53), Finite (2 ^ 53)]]) \<and>
   Finite (2 ^ 53) \<noteq> Finite (sum_list [1, 2 ^ 53, 1])"
proof -
  have a1: "argsort [Finite 1, Finite (- 2)] = [1, 0]" by code_simp
  have s1: "sort [Finite 1, Finite (- 2)] = [Finite (- 2), Finite 1]" by code_simp
  have f1: "fl_of binary64 (- 1) = Finite (- 1)"
    using fl_of_binary64_int [of "- 1"] by simp
  have 1: "sort_sum binary64 [[Finite 1, Finite (- 2)]] =
     ([[0, 1]], [[Finite 1, Finite (- 2)]], [[Finite 1, Finite (- 1)]])"
    by (simp add: sort_sum_def a1 s1 np_cumsum_def f1 less_eq_fl_def)
  have 2: "\<not> sorted_wrt fl_le [Finite 1, Finite (- 1)]"
    by (simp add: fl_le_Finite)
  have a2: "argsort [Finite 1, Finite (2 ^ 53), Finite 1] = [0, 2, 1]" by code_simp
  have s2: "sort [Finite 1, Finite (2 ^ 53), Finite 1] = [Finite 1, Finite 1, Finite (2 ^ 53)]"
    by code_simp
  have 3: "sort_sum binary64 [[Finite 1, Finite (2 ^ 53), Finite 1]] =
     ([[1, 2, 0]], [[Finite (2 ^ 53), Finite 1, Finite 1]],
      [[Finite (2 ^ 53), Finite (2 ^ 53), Finite (2 ^ 53)]])"
    by (simp only: sort_sum_def Let_def list.map a2 s2 rev.simps append.simps np_cumsum_def
          list.case cumsum_from.simps fadd.simps fl_of_binary64_tie)
  have 4: "Finite (2 ^ 53) \<noteq> Finite (sum_list [1, 2 ^ 53, 1])" by simp
  from 1 2 3 4 show ?thesis by blast
qed

text \<open>
  A negative score can also leave the cumulative sums non-decreasing, when the
  addition absorbs it: in \<^verbatim>\<open>float64\<close>, \<open>1 - 2\<^sup>-\<^sup>6\<^sup>7\<close> rounds to \<open>1\<close>.
\<close>

lemma sort_sum_absorbs_small_negative:
  "sort_sum binary64 [[Finite 1, Finite (- (1 / 2 ^ 67))]] =
     ([[0, 1]], [[Finite 1, Finite (- (1 / 2 ^ 67))]], [[Finite 1, Finite 1]]) \<and>
   sorted_wrt fl_le [Finite 1, Finite 1]"
proof -
  have a: "argsort [Finite 1, Finite (- (1 / 2 ^ 67))] = [1, 0]" by code_simp
  have s: "sort [Finite 1, Finite (- (1 / 2 ^ 67))] = [Finite (- (1 / 2 ^ 67)), Finite 1]" by code_simp
  have r: "round_fin binary64 (1 + - (1 / 2 ^ 67)) = 1"
    using round_fin_near [of "- 1" "1 + - (1 / 2 ^ 67)" "- 53" binary64 "2 ^ 53"]
    by (simp add: binary64_def emin_def power_int_def power_divide)
  have "\<bar>1 :: rat\<bar> = 2 powi 0" by simp
  also have "\<dots> < 2 powi (emax binary64 + 1)" by (rule pow2_strict_mono) (simp add: binary64_def)
  finally have "\<bar>round_fin binary64 (1 + - (1 / 2 ^ 67))\<bar> < 2 powi (emax binary64 + 1)"
    by (simp only: r)
  then have f: "fl_of binary64 (1 + - (1 / 2 ^ 67)) = Finite 1" by (simp only: fl_of_Finite r)
  have "sort_sum binary64 [[Finite 1, Finite (- (1 / 2 ^ 67))]] =
     ([[0, 1]], [[Finite 1, Finite (- (1 / 2 ^ 67))]], [[Finite 1, Finite 1]])"
    by (simp only: sort_sum_def Let_def list.map a s rev.simps append.simps np_cumsum_def
          list.case cumsum_from.simps fadd.simps f)
  moreover have "sorted_wrt fl_le [Finite 1, Finite 1]" by (simp add: fl_le_Finite)
  ultimately show ?thesis by simp
qed

subsection \<open>accuracy\<close>

lemma py_max_Max:
  assumes "topk \<noteq> []"
  shows "py_max topk = Inr (Max (set topk))"
proof (cases topk)
  case Nil
  with assms show ?thesis by simp
next
  case (Cons x xs)
  have "fold max xs x = Max (set (x # xs))"
    by (rule Max.set_eq_fold [symmetric])
  then show ?thesis
    by (simp only: Cons py_max_def list.case)
qed

lemma topk_indices_take: "k \<le> m \<Longrightarrow> take k (topk_indices row m) = topk_indices row k"
  by (simp add: topk_indices_def min_def)

lemma topk_indices_length: "k \<le> length row \<Longrightarrow> length (topk_indices row k) = k"
  by (simp add: topk_indices_def)

lemma topk_indices_distinct: "distinct (topk_indices row k)"
  by (simp add: topk_indices_def)

lemma topk_indices_bound: "j \<in> set (topk_indices row k) \<Longrightarrow> j < length row"
proof -
  assume "j \<in> set (topk_indices row k)"
  then have "j \<in> set (sort_key (\<lambda>i. - (row ! i)) [0..<length row])"
    unfolding topk_indices_def by (rule in_set_takeD)
  then show ?thesis by simp
qed

lemma topk_indices_is_top_k:
  assumes "k \<le> length row"
  shows "is_top_k row k (topk_indices row k)"
proof -
  let ?f = "\<lambda>i. - (row ! i)"
  let ?ys = "sort_key ?f [0..<length row]"
  have split: "?ys = take k ?ys @ drop k ?ys" by simp
  have s: "sorted (map ?f ?ys)" by simp
  then have "sorted (map ?f (take k ?ys) @ map ?f (drop k ?ys))"
    by (metis split map_append)
  then have dom: "\<forall>x\<in>set (take k ?ys). \<forall>y\<in>set (drop k ?ys). ?f x \<le> ?f y"
    and st: "sorted (map ?f (take k ?ys))"
    by (auto simp: sorted_append)
  have desc: "sorted_wrt (\<ge>) (map (\<lambda>j. row ! j) (take k ?ys))"
    using st by (simp add: sorted_wrt_map)
  have others: "\<forall>j\<in>set (take k ?ys). \<forall>i<length row. i \<notin> set (take k ?ys) \<longrightarrow> row ! i \<le> row ! j"
  proof (intro ballI allI impI)
    fix j i assume j: "j \<in> set (take k ?ys)" and i: "i < length row" and ni: "i \<notin> set (take k ?ys)"
    from i have "i \<in> set ?ys" by simp
    then have "i \<in> set (take k ?ys) \<union> set (drop k ?ys)"
      by (metis split set_append)
    with ni have "i \<in> set (drop k ?ys)" by simp
    with dom j have "?f j \<le> ?f i" by blast
    then show "row ! i \<le> row ! j" by simp
  qed
  have sel: "topk_indices row k = take k ?ys"
    by (simp add: topk_indices_def)
  have bnd: "\<forall>j\<in>set (topk_indices row k). j < length row"
    using topk_indices_bound by blast
  show ?thesis
    unfolding is_top_k_def
    using desc others bnd topk_indices_length [OF assms] topk_indices_distinct [of row k]
    by (simp only: sel)
qed

lemma count_true_concat: "count_true (concat xss) = sum_list (map count_true xss)"
  by (induction xss) (simp_all add: count_true_def)

lemma count_true_map_upt: "count_true (map P [0..<n]) = (\<Sum>i<n. if P i then 1 else 0)"
  by (induction n) (simp_all add: count_true_def)

lemma sum_hit_distinct:
  assumes "distinct sel"
  shows "(\<Sum>j<length sel. if int (sel ! j) = t then 1 else 0) = (if label_in t sel then 1 else (0::nat))"
  using assms
proof (induction sel rule: rev_induct)
  case Nil
  then show ?case by (simp add: label_in_def)
next
  case (snoc x xs)
  then have d: "distinct xs" and nx: "x \<notin> set xs" by simp_all
  have eq: "(\<Sum>j<length xs. if int ((xs @ [x]) ! j) = t then 1 else 0) =
            (\<Sum>j<length xs. if int (xs ! j) = t then 1 else (0::nat))"
    by (rule sum.cong) (simp_all add: nth_append)
  have "label_in t xs \<Longrightarrow> int x \<noteq> t"
    using nx by (auto simp: label_in_def)
  then show ?case
    using snoc.IH [OF d] by (auto simp: eq label_in_def)
qed

lemma correct_rows:
  assumes "length pred0 = length target"
  shows "map2 (\<lambda>ps ts. map2 (\<lambda>p t. int p = t) ps ts) (t_matrix pred0 M) (replicate M target) =
         map (\<lambda>j. map (\<lambda>i. int (pred0 ! i ! j) = target ! i) [0..<length target]) [0..<M]"
proof (rule nth_equalityI)
  show "length (map2 (\<lambda>ps ts. map2 (\<lambda>p t. int p = t) ps ts) (t_matrix pred0 M) (replicate M target)) =
        length (map (\<lambda>j. map (\<lambda>i. int (pred0 ! i ! j) = target ! i) [0..<length target]) [0..<M])"
    by (simp add: t_matrix_def)
next
  fix j
  assume "j < length (map2 (\<lambda>ps ts. map2 (\<lambda>p t. int p = t) ps ts) (t_matrix pred0 M) (replicate M target))"
  then have j: "j < M" by (simp add: t_matrix_def)
  have "map2 (\<lambda>p t. int p = t) (map (\<lambda>row. row ! j) pred0) target =
        map (\<lambda>i. int (pred0 ! i ! j) = target ! i) [0..<length target]"
    using assms by (intro nth_equalityI) simp_all
  with j show "map2 (\<lambda>ps ts. map2 (\<lambda>p t. int p = t) ps ts) (t_matrix pred0 M) (replicate M target) ! j =
        map (\<lambda>j. map (\<lambda>i. int (pred0 ! i ! j) = target ! i) [0..<length target]) [0..<M] ! j"
    by (simp add: t_matrix_def)
qed

lemma count_true_grid:
  "count_true (concat (map (\<lambda>j. map (\<lambda>i. P i j) [0..<n]) [0..<K])) =
   (\<Sum>i<n. \<Sum>j<K. if P i j then 1 else 0)"
proof -
  have "count_true (concat (map (\<lambda>j. map (\<lambda>i. P i j) [0..<n]) [0..<K])) =
        sum_list (map (\<lambda>j. \<Sum>i<n. if P i j then 1 else 0) [0..<K])"
    by (simp add: count_true_concat comp_def count_true_map_upt)
  also have "\<dots> = (\<Sum>j<K. \<Sum>i<n. if P i j then 1 else 0)"
    by (simp add: interv_sum_list_conv_sum_set_nat lessThan_atLeast0)
  also have "\<dots> = (\<Sum>i<n. \<Sum>j<K. if P i j then 1 else 0)"
    by (rule sum.swap)
  finally show ?thesis .
qed

lemma length_filter_upt: "length (filter P [0..<n]) = (\<Sum>i<n. if P i then 1 else 0)"
  by (induction n) simp_all

lemma hits_le: "hits sel m output target k \<le> length target"
proof -
  have "hits sel m output target k \<le> length [0..<length target]"
    unfolding hits_def by (rule length_filter_le)
  then show ?thesis by simp
qed

lemma is_top_k_take:
  assumes t: "is_top_k row m s" and k: "k \<le> m"
  shows "is_top_k row k (take k s)"
proof -
  from t have len: "length s = m" and d: "distinct s" and b: "\<forall>j\<in>set s. j < length row"
    and so: "sorted_wrt (\<ge>) (map (\<lambda>j. row ! j) s)"
    and ot: "\<forall>j\<in>set s. \<forall>i<length row. i \<notin> set s \<longrightarrow> row ! i \<le> row ! j"
    by (simp_all add: is_top_k_def)
  have split: "s = take k s @ drop k s" by simp
  have 1: "length (take k s) = k" using len k by simp
  have 2: "distinct (take k s)" using d by simp
  have 3: "\<forall>j\<in>set (take k s). j < length row" using b by (meson in_set_takeD)
  have "sorted_wrt (\<ge>) (map (\<lambda>j. row ! j) (take k s) @ map (\<lambda>j. row ! j) (drop k s))"
    using so by (metis split map_append)
  then have 4: "sorted_wrt (\<ge>) (map (\<lambda>j. row ! j) (take k s))"
    and dom: "\<forall>x\<in>set (take k s). \<forall>y\<in>set (drop k s). row ! y \<le> row ! x"
    by (auto simp: sorted_wrt_append)
  have 5: "\<forall>j\<in>set (take k s). \<forall>i<length row. i \<notin> set (take k s) \<longrightarrow> row ! i \<le> row ! j"
  proof (intro ballI allI impI)
    fix j i assume j: "j \<in> set (take k s)" and i: "i < length row" and ni: "i \<notin> set (take k s)"
    have js: "j \<in> set s" using j by (rule in_set_takeD)
    show "row ! i \<le> row ! j"
    proof (cases "i \<in> set s")
      case True
      then have "i \<in> set (take k s) \<union> set (drop k s)" by (metis split set_append)
      with ni have "i \<in> set (drop k s)" by simp
      with dom j show ?thesis by blast
    next
      case False
      with ot js i show ?thesis by blast
    qed
  qed
  from 1 2 3 4 5 show ?thesis by (simp only: is_top_k_def simp_thms)
qed

lemma count_correct_hits:
  assumes len: "length output = length target"
    and K: "K \<le> M"
    and rows: "\<forall>row\<in>set output. is_top_k row M (sel row M)"
  shows "count_true (concat (map (\<lambda>j. map (\<lambda>i. int (map (\<lambda>row. sel row M) output ! i ! j) = target ! i)
            [0..<length target]) [0..<K])) = hits sel M output target K"
proof -
  let ?n = "length target"
  have inner: "(\<Sum>j<K. if int (map (\<lambda>row. sel row M) output ! i ! j) = target ! i then 1 else 0) =
               (if label_in (target ! i) (take K (sel (output ! i) M)) then 1 else (0::nat))"
    if i: "i < ?n" for i
  proof -
    let ?sel = "take K (sel (output ! i) M)"
    from i len have mem: "output ! i \<in> set output" by simp
    with rows have top: "is_top_k (output ! i) M (sel (output ! i) M)" by blast
    from is_top_k_take [OF top K] have lsel: "length ?sel = K" and dsel: "distinct ?sel"
      by (simp_all add: is_top_k_def)
    have nth: "map (\<lambda>row. sel row M) output ! i ! j = ?sel ! j" if "j < K" for j
      using that i len by simp
    have "(\<Sum>j<K. if int (map (\<lambda>row. sel row M) output ! i ! j) = target ! i then 1 else 0) =
          (\<Sum>j<K. if int (?sel ! j) = target ! i then 1 else (0::nat))"
      by (rule sum.cong) (simp_all add: nth)
    also have "\<dots> = (\<Sum>j<length ?sel. if int (?sel ! j) = target ! i then 1 else (0::nat))"
      by (simp only: lsel)
    also have "\<dots> = (if label_in (target ! i) ?sel then 1 else 0)"
      using dsel by (rule sum_hit_distinct)
    finally show ?thesis .
  qed
  have "count_true (concat (map (\<lambda>j. map (\<lambda>i. int (map (\<lambda>row. sel row M) output ! i ! j) = target ! i)
            [0..<?n]) [0..<K])) =
        (\<Sum>i<?n. \<Sum>j<K. if int (map (\<lambda>row. sel row M) output ! i ! j) = target ! i then 1 else 0)"
    by (rule count_true_grid)
  also have "\<dots> = (\<Sum>i<?n. if label_in (target ! i) (take K (sel (output ! i) M)) then 1 else 0)"
    by (rule sum.cong) (simp_all add: inner)
  also have "\<dots> = hits sel M output target K"
    by (simp add: hits_def length_filter_upt)
  finally show ?thesis .
qed

lemma fl_of_binary32_nat:
  assumes "n \<le> 2 ^ 24"
  shows "fl_of binary32 (of_nat n) = Finite (of_nat n)"
proof -
  have "\<bar>int n\<bar> \<le> 2 ^ prec binary32" using assms by (simp add: binary32_def)
  with valid_binary32 have "fl_of binary32 (of_int (int n)) = Finite (of_int (int n))"
    by (rule fl_of_int) (simp add: binary32_def)
  then show ?thesis by simp
qed

lemma foldl_fadd_count:
  "c + count_true bs \<le> 2 ^ 24 \<Longrightarrow>
   foldl (fadd binary32) (Finite (of_nat c)) (map bool_float bs) = Finite (of_nat (c + count_true bs))"
proof (induction bs arbitrary: c)
  case Nil
  then show ?case by (simp add: count_true_def)
next
  case (Cons b bs)
  show ?case
  proof (cases b)
    case True
    then have ct: "count_true (b # bs) = Suc (count_true bs)" by (simp add: count_true_def)
    with Cons.prems have le: "Suc c + count_true bs \<le> 2 ^ 24" by simp
    then have "Suc c \<le> 2 ^ 24" by simp
    then have "fl_of binary32 (of_nat (Suc c)) = Finite (of_nat (Suc c))" by (rule fl_of_binary32_nat)
    then have step: "fadd binary32 (Finite (of_nat c)) (bool_float b) = Finite (of_nat (Suc c))"
      using True by (simp add: bool_float_def add.commute)
    show ?thesis using Cons.IH [OF le] by (simp add: step ct)
  next
    case False
    then have ct: "count_true (b # bs) = count_true bs" by (simp add: count_true_def)
    with Cons.prems have le: "c + count_true bs \<le> 2 ^ 24" by simp
    then have "c \<le> 2 ^ 24" by simp
    then have "fl_of binary32 (of_nat c) = Finite (of_nat c)" by (rule fl_of_binary32_nat)
    then have step: "fadd binary32 (Finite (of_nat c)) (bool_float b) = Finite (of_nat c)"
      using False by (simp add: bool_float_def)
    show ?thesis using Cons.IH [OF le] by (simp add: step ct)
  qed
qed

lemma torch_sum_count:
  assumes "count_true bs \<le> 2 ^ 24"
  shows "torch_sum binary32 (map bool_float bs) = Finite (of_nat (count_true bs))"
  using foldl_fadd_count [of 0 bs] assms by (simp add: torch_sum_def)

lemma percent_bounds:
  assumes n1: "1 \<le> n" and n2: "n \<le> 2 ^ 24"
  shows "2 powi (- 18) \<le> (100 :: rat) / of_nat n" and "(100 :: rat) / of_nat n \<le> 2 powi 7"
proof -
  have n0: "0 < (of_nat n :: rat)" using n1 by simp
  have "(of_nat n :: rat) \<le> of_nat (2 ^ 24)" using n2 by (simp only: of_nat_le_iff)
  then have "(of_nat n :: rat) \<le> 2 ^ 24" by simp
  then have "(of_nat n :: rat) \<le> 100 * 2 ^ 18" by simp
  then have "(of_nat n :: rat) / 2 ^ 18 \<le> 100" by (simp add: pos_divide_le_eq)
  then have "1 / 2 ^ 18 \<le> (100 :: rat) / of_nat n"
    using n0 by (simp add: pos_le_divide_eq pos_divide_le_eq mult.commute)
  then show "2 powi (- 18) \<le> (100 :: rat) / of_nat n"
    by (simp add: power_int_def inverse_eq_divide power_one_over)
  have "(1 :: rat) \<le> of_nat n" using n1 by simp
  then have "(100 :: rat) \<le> 128 * of_nat n" by simp
  then have "(100 :: rat) / of_nat n \<le> 128" using n0 by (simp add: pos_divide_le_eq)
  then show "(100 :: rat) / of_nat n \<le> 2 powi 7" by (simp add: power_int_def)
qed

lemma scale_binary64:
  assumes n1: "1 \<le> n" and n2: "n \<le> 2 ^ 24"
  shows "fl_of binary64 (100 / round_fin binary64 (of_nat n)) = Finite (round_fin binary64 (100 / of_nat n))"
proof -
  have "\<bar>int n\<bar> \<le> 2 ^ prec binary64"
  proof -
    have "n \<le> 2 ^ 53" using n2 by (rule order_trans) simp
    then show ?thesis by (simp add: binary64_def)
  qed
  with valid_binary64 have "round_fin binary64 (of_int (int n) * 2 powi 0) = of_int (int n) * 2 powi 0"
    by (rule round_fin_grid) (simp add: binary64_def emin_def)
  then have r: "round_fin binary64 (of_nat n) = of_nat n" by simp
  have "\<bar>(100 :: rat) / of_nat n\<bar> \<le> 2 powi 7" using percent_bounds(2) [OF n1 n2] by simp
  with valid_binary64 have "fl_of binary64 (100 / of_nat n) = Finite (round_fin binary64 (100 / of_nat n))"
    by (intro fl_of_Finite_bound [where e = 7]) (simp_all add: binary64_def emin_def)
  then show ?thesis by (simp only: r)
qed

lemma scale_abs_le:
  assumes n1: "1 \<le> n" and n2: "n \<le> 2 ^ 24"
  shows "\<bar>round_fin binary64 (100 / of_nat n)\<bar> \<le> 2 powi 7"
proof -
  have "\<bar>(100 :: rat) / of_nat n\<bar> \<le> 2 powi 7" using percent_bounds(2) [OF n1 n2] by simp
  with valid_binary64 show ?thesis
    by (intro round_fin_abs_le) (simp_all add: binary64_def emin_def)
qed

lemma scale_binary32:
  assumes n1: "1 \<le> n" and n2: "n \<le> 2 ^ 24"
  shows "fcast binary32 (Finite (round_fin binary64 (100 / of_nat n))) =
         Finite (round_fin binary32 (round_fin binary64 (100 / of_nat n)))"
proof -
  have "fl_of binary32 (round_fin binary64 (100 / of_nat n)) =
        Finite (round_fin binary32 (round_fin binary64 (100 / of_nat n)))"
    using valid_binary32 scale_abs_le [OF n1 n2]
    by (intro fl_of_Finite_bound [where e = 7]) (simp_all add: binary32_def emin_def)
  then show ?thesis by (simp add: fcast_def)
qed

lemma scale32_abs_le:
  assumes n1: "1 \<le> n" and n2: "n \<le> 2 ^ 24"
  shows "\<bar>round_fin binary32 (round_fin binary64 (100 / of_nat n))\<bar> \<le> 2 powi 7"
  by (rule round_fin_abs_le [OF valid_binary32 _ scale_abs_le [OF n1 n2]])
    (simp add: binary32_def emin_def)

lemma fmul_percent:
  assumes n1: "1 \<le> n" and n2: "n \<le> 2 ^ 24" and h: "h \<le> n"
  shows "fmul binary32 (Finite (of_nat h)) (Finite (round_fin binary32 (round_fin binary64 (100 / of_nat n)))) =
         Finite (percent_f32 h n)"
proof -
  let ?c = "round_fin binary32 (round_fin binary64 (100 / of_nat n))"
  have "(of_nat h :: rat) \<le> of_nat (2 ^ 24)" using h n2 by (simp only: of_nat_le_iff)
  then have hb: "\<bar>of_nat h :: rat\<bar> \<le> 2 powi 24" by (simp add: power_int_def)
  have "\<bar>of_nat h * ?c\<bar> = \<bar>of_nat h :: rat\<bar> * \<bar>?c\<bar>" by (rule abs_mult)
  also have "\<dots> \<le> 2 powi 24 * 2 powi 7"
    using hb scale32_abs_le [OF n1 n2] by (intro mult_mono) simp_all
  also have "\<dots> = 2 powi 31" by (rule pow2_mult_eq) simp
  finally have "\<bar>of_nat h * ?c\<bar> \<le> 2 powi 31" .
  with valid_binary32 have "fl_of binary32 (of_nat h * ?c) = Finite (round_fin binary32 (of_nat h * ?c))"
    by (intro fl_of_Finite_bound [where e = 31]) (simp_all add: binary32_def emin_def)
  then show ?thesis by (simp add: percent_f32_def)
qed

lemma percent_f32_nonneg: "0 \<le> percent_f32 h n"
proof -
  have "0 \<le> round_fin binary64 (100 / of_nat n)" by (rule round_fin_nonneg) simp
  then have "0 \<le> round_fin binary32 (round_fin binary64 (100 / of_nat n))" by (rule round_fin_nonneg)
  then have "0 \<le> of_nat h * round_fin binary32 (round_fin binary64 (100 / of_nat n))" by simp
  then show ?thesis unfolding percent_f32_def by (rule round_fin_nonneg)
qed

lemma percent_f32_err:
  assumes n1: "1 \<le> n" and n2: "n \<le> 2 ^ 24"
  shows "\<bar>percent_f32 h n - 100 * of_nat h / of_nat n\<bar> \<le> 100 * of_nat h / of_nat n * 2 powi (- 22)"
proof (cases "h = 0")
  case True
  then show ?thesis by (simp add: percent_f32_def round_fin_0)
next
  case False
  then have h1: "(1 :: rat) \<le> of_nat h" by simp
  let ?q = "(100 :: rat) / of_nat n"
  let ?c64 = "round_fin binary64 ?q"
  let ?c32 = "round_fin binary32 ?c64"
  let ?d1 = "(2 :: rat) powi (- 53)"
  let ?d2 = "(2 :: rat) powi (- 24)"
  have q: "2 powi (- 18) \<le> ?q" using n1 n2 by (rule percent_bounds(1))
  have q0: "0 \<le> ?q" by simp
  have e64: "\<bar>?c64 - ?q\<bar> \<le> ?q * ?d1"
    using round_fin_rel_err [OF valid_binary64 _ q] by (simp add: binary64_def emin_def)
  have c64: "2 powi (- 18) \<le> ?c64"
    using valid_binary64 _ q by (rule round_fin_ge_pow2) (simp add: binary64_def emin_def)
  have e32: "\<bar>?c32 - ?c64\<bar> \<le> ?c64 * ?d2"
    using round_fin_rel_err [OF valid_binary32 _ c64] by (simp add: binary32_def emin_def)
  have c32: "2 powi (- 18) \<le> ?c32"
    using valid_binary32 _ c64 by (rule round_fin_ge_pow2) (simp add: binary32_def emin_def)
  have c320: "0 \<le> ?c32" using c32 pow2_pos [of "- 18"] by linarith
  have "?c32 \<le> of_nat h * ?c32" using h1 c320 by (simp add: mult_le_cancel_right1)
  with c32 have p: "2 powi (- 18) \<le> of_nat h * ?c32" by linarith
  have ep: "\<bar>percent_f32 h n - of_nat h * ?c32\<bar> \<le> of_nat h * ?c32 * ?d2"
    using round_fin_rel_err [OF valid_binary32 _ p] by (simp add: binary32_def emin_def percent_f32_def)
  let ?D = "?d1 + ?d2 + ?d1 * ?d2"
  have s1: "\<bar>?c32 - ?q\<bar> \<le> ?q * ?D"
    using q0 _ e64 e32 by (rule rel_err_compose) simp
  have "of_nat h * ?c32 - of_nat h * ?q = of_nat h * (?c32 - ?q)"
    by (simp only: right_diff_distrib)
  then have "\<bar>of_nat h * ?c32 - of_nat h * ?q\<bar> = \<bar>of_nat h :: rat\<bar> * \<bar>?c32 - ?q\<bar>"
    by (simp only: abs_mult)
  also have "\<dots> = of_nat h * \<bar>?c32 - ?q\<bar>" by simp
  also have "\<dots> \<le> of_nat h * (?q * ?D)" using s1 by (intro mult_left_mono) simp_all
  finally have s2: "\<bar>of_nat h * ?c32 - of_nat h * ?q\<bar> \<le> of_nat h * ?q * ?D" by (simp add: mult.assoc)
  have hq0: "0 \<le> of_nat h * ?q" by simp
  have s3: "\<bar>percent_f32 h n - of_nat h * ?q\<bar> \<le> of_nat h * ?q * (?D + ?d2 + ?D * ?d2)"
    using hq0 _ s2 ep by (rule rel_err_compose) simp
  have num: "?D + ?d2 + ?D * ?d2 \<le> 2 powi (- 22)"
    by (simp add: power_int_def power_divide inverse_eq_divide)
  have "of_nat h * ?q * (?D + ?d2 + ?D * ?d2) \<le> of_nat h * ?q * 2 powi (- 22)"
    using num hq0 by (rule mult_left_mono)
  with s3 have "\<bar>percent_f32 h n - of_nat h * ?q\<bar> \<le> of_nat h * ?q * 2 powi (- 22)" by linarith
  moreover have "of_nat h * ?q = 100 * of_nat h / of_nat n" by simp
  ultimately show ?thesis by (simp only:)
qed

lemma accuracy_value:
  assumes ne: "target \<noteq> []"
    and small: "length target \<le> 2 ^ 24"
    and len: "length output = length target"
    and tk: "topk \<noteq> []"
    and range: "\<forall>k\<in>set topk. 0 \<le> k \<and> (\<forall>row\<in>set output. k \<le> int (length row))"
    and sel: "\<forall>row\<in>set output. is_top_k row (nat (Max (set topk))) (sel row (nat (Max (set topk))))"
  shows "accuracy sel output target topk =
         Inr (map (\<lambda>k. Finite (percent_f32 (hits sel (nat (Max (set topk))) output target (nat k))
                                   (length target))) topk)"
proof -
  let ?maxk = "Max (set topk)"
  let ?M = "nat ?maxk"
  let ?n = "length target"
  let ?pred0 = "map (\<lambda>row. sel row ?M) output"
  let ?F = "\<lambda>j. map (\<lambda>i. int (?pred0 ! i ! j) = target ! i) [0..<?n]"
  let ?c = "round_fin binary32 (round_fin binary64 (100 / of_nat ?n))"
  have n1: "1 \<le> ?n" using ne by (simp add: Suc_le_eq)
  have mx: "py_max topk = Inr ?maxk" using tk by (rule py_max_Max)
  have min: "?maxk \<in> set topk" using tk by simp
  with range have m0: "0 \<le> ?maxk" and mrows: "\<forall>row\<in>set output. ?maxk \<le> int (length row)"
    by blast+
  have tt: "torch_topk sel output ?maxk = Inr ?pred0"
    using m0 mrows by (auto simp: torch_topk_def)
  have ex: "expand_as target ?M (length output) = Inr (replicate ?M target)"
    by (simp add: expand_as_def len)
  have cr: "map2 (\<lambda>ps ts. map2 (\<lambda>p t. int p = t) ps ts) (t_matrix ?pred0 ?M) (replicate ?M target) =
            map ?F [0..<?M]"
    by (rule correct_rows) (simp add: len)
  have sc: "fcast binary32 (fl_of binary64 (100 / round_fin binary64 (of_nat ?n))) = Finite ?c"
    by (simp only: scale_binary64 [OF n1 small] scale_binary32 [OF n1 small])
  have entry: "fmul binary32 (torch_sum binary32 (map bool_float (concat (py_slice_to k (map ?F [0..<?M])))))
                 (Finite ?c) =
               Finite (percent_f32 (hits sel ?M output target (nat k)) ?n)" if k: "k \<in> set topk" for k
  proof -
    from k range have k0: "0 \<le> k" by blast
    have "k \<le> ?maxk" using k by simp
    then have kM: "nat k \<le> ?M" by simp
    have "py_slice_to k (map ?F [0..<?M]) = map ?F [0..<nat k]"
      using k0 kM by (simp add: py_slice_to_def take_map take_upt)
    then have ct: "count_true (concat (py_slice_to k (map ?F [0..<?M]))) = hits sel ?M output target (nat k)"
      using count_correct_hits [where sel = sel, OF len kM sel] by simp
    have hl: "hits sel ?M output target (nat k) \<le> ?n" by (rule hits_le)
    then have "count_true (concat (py_slice_to k (map ?F [0..<?M]))) \<le> 2 ^ 24"
      using small by (simp only: ct)
    then have "torch_sum binary32 (map bool_float (concat (py_slice_to k (map ?F [0..<?M])))) =
               Finite (of_nat (hits sel ?M output target (nat k)))"
      by (simp only: torch_sum_count ct)
    then show ?thesis by (simp only: fmul_percent [OF n1 small hl])
  qed
  have "accuracy sel output target topk =
        Inr (map (\<lambda>k. fmul binary32 (torch_sum binary32 (map bool_float (concat (py_slice_to k (map ?F [0..<?M])))))
                        (Finite ?c)) topk)"
    unfolding accuracy_def by (simp add: mx tt ex cr Let_def ne sc)
  also have "\<dots> = Inr (map (\<lambda>k. Finite (percent_f32 (hits sel ?M output target (nat k)) ?n)) topk)"
    using entry by simp
  finally show ?thesis .
qed

lemma percent_f32_1_3: "percent_f32 1 3 = 8738133 / 262144"
proof -
  have a: "round_fin binary64 (100 / 3) = 4691249611844267 / 2 ^ 47"
    using round_fin_near [of 5 "100 / 3" "- 47" binary64 4691249611844267]
    by (simp add: binary64_def emin_def power_int_def power_divide)
  have b: "round_fin binary32 (4691249611844267 / 2 ^ 47) = 8738133 / 2 ^ 18"
    using round_fin_near [of 5 "4691249611844267 / 2 ^ 47" "- 18" binary32 8738133]
    by (simp add: binary32_def emin_def power_int_def power_divide)
  have c: "round_fin binary32 (8738133 / 2 ^ 18) = 8738133 / 2 ^ 18"
    using round_fin_near [of 5 "8738133 / 2 ^ 18" "- 18" binary32 8738133]
    by (simp add: binary32_def emin_def power_int_def power_divide)
  have "percent_f32 1 3 = round_fin binary32 (round_fin binary32 (round_fin binary64 (100 / 3)))"
    by (simp add: percent_f32_def)
  also have "\<dots> = 8738133 / 2 ^ 18" by (simp only: a b c)
  finally show ?thesis by simp
qed

lemma percent_f32_2_3: "percent_f32 2 3 = 8738133 / 131072"
proof -
  have a: "round_fin binary64 (100 / 3) = 4691249611844267 / 2 ^ 47"
    using round_fin_near [of 5 "100 / 3" "- 47" binary64 4691249611844267]
    by (simp add: binary64_def emin_def power_int_def power_divide)
  have b: "round_fin binary32 (4691249611844267 / 2 ^ 47) = 8738133 / 2 ^ 18"
    using round_fin_near [of 5 "4691249611844267 / 2 ^ 47" "- 18" binary32 8738133]
    by (simp add: binary32_def emin_def power_int_def power_divide)
  have c: "round_fin binary32 (2 * (8738133 / 2 ^ 18)) = 8738133 / 2 ^ 17"
    using round_fin_near [of 6 "2 * (8738133 / 2 ^ 18)" "- 17" binary32 8738133]
    by (simp add: binary32_def emin_def power_int_def power_divide)
  have "percent_f32 2 3 = round_fin binary32 (2 * round_fin binary32 (round_fin binary64 (100 / 3)))"
    by (simp add: percent_f32_def)
  also have "\<dots> = 8738133 / 2 ^ 17" by (simp only: a b c)
  finally show ?thesis by simp
qed

lemma percent_f32_45_45: "percent_f32 45 45 = 13107201 / 131072"
proof -
  have a: "round_fin binary64 (100 / 45) = 2501999792983609 / 2 ^ 50"
    using round_fin_near [of 1 "100 / 45" "- 51" binary64 5003999585967218]
    by (simp add: binary64_def emin_def power_int_def power_divide)
  have b: "round_fin binary32 (2501999792983609 / 2 ^ 50) = 9320676 / 2 ^ 22"
    using round_fin_near [of 1 "2501999792983609 / 2 ^ 50" "- 22" binary32 9320676]
    by (simp add: binary32_def emin_def power_int_def power_divide)
  have c: "round_fin binary32 (45 * (9320676 / 2 ^ 22)) = 13107201 / 131072"
    using round_fin_near [of 6 "45 * (9320676 / 2 ^ 22)" "- 17" binary32 13107201]
    by (simp add: binary32_def emin_def power_int_def power_divide)
  have "percent_f32 45 45 = round_fin binary32 (45 * round_fin binary32 (round_fin binary64 (100 / 45)))"
    by (simp add: percent_f32_def)
  then show ?thesis by (simp only: a b c)
qed

text \<open>
  Claim C6, as amended. For a batch of at least one and at most \<open>2\<^sup>2\<^sup>4\<close>
  examples, one label per row and every \<open>k\<close> of \<open>topk\<close> between 0 and the number
  of classes, and for whichever choice \<^verbatim>\<open>topk\<close> makes among equal scores,
  \<^verbatim>\<open>accuracy\<close> returns for each \<open>k\<close> the \<^verbatim>\<open>float32\<close> computed from the number
  of examples whose label is among the \<open>k\<close> highest-scoring classes selected for
  their row. That number is at most the number of examples, the entry is
  non-negative and differs from the exact percentage by at most \<open>2\<^sup>-\<^sup>2\<^sup>2\<close> of it.
  With \<open>topk = (1,)\<close> this is the rounded percentage of examples whose label is
  the selected highest-scoring class.
\<close>

theorem accuracy_topk_percentage:
  assumes ne: "target \<noteq> []"
    and small: "length target \<le> 2 ^ 24"
    and len: "length output = length target"
    and tk: "topk \<noteq> []"
    and range: "\<forall>k\<in>set topk. 0 \<le> k \<and> (\<forall>row\<in>set output. k \<le> int (length row))"
    and sel: "\<forall>row\<in>set output. is_top_k row (nat (Max (set topk))) (sel row (nat (Max (set topk))))"
  shows "accuracy sel output target topk =
           Inr (map (\<lambda>k. Finite (percent_f32 (hits sel (nat (Max (set topk))) output target (nat k))
                                     (length target))) topk) \<and>
         (\<forall>k\<in>set topk.
            hits sel (nat (Max (set topk))) output target (nat k) \<le> length target \<and>
            0 \<le> percent_f32 (hits sel (nat (Max (set topk))) output target (nat k)) (length target) \<and>
            \<bar>percent_f32 (hits sel (nat (Max (set topk))) output target (nat k)) (length target) -
               100 * of_nat (hits sel (nat (Max (set topk))) output target (nat k)) / of_nat (length target)\<bar>
              \<le> 100 * of_nat (hits sel (nat (Max (set topk))) output target (nat k)) / of_nat (length target)
                  * 2 powi (- 22) \<and>
            (\<forall>row\<in>set output. is_top_k row (nat k) (take (nat k) (sel row (nat (Max (set topk)))))))"
proof -
  let ?M = "nat (Max (set topk))"
  have n1: "1 \<le> length target" using ne by (simp add: Suc_le_eq)
  have main: "accuracy sel output target topk =
           Inr (map (\<lambda>k. Finite (percent_f32 (hits sel ?M output target (nat k)) (length target))) topk)"
    using ne small len tk range sel by (rule accuracy_value)
  have top: "is_top_k row (nat k) (take (nat k) (sel row ?M))"
    if "k \<in> set topk" "row \<in> set output" for k row
  proof -
    have "k \<le> Max (set topk)" using that(1) by simp
    then have "nat k \<le> ?M" by simp
    moreover have "is_top_k row ?M (sel row ?M)" using sel that(2) by blast
    ultimately show ?thesis by (intro is_top_k_take)
  qed
  show ?thesis
    using main top hits_le percent_f32_nonneg percent_f32_err [OF n1 small] by blast
qed

theorem accuracy_topk_percentage_witness:
  "accuracy topk_indices [[1, 3, 2], [5, 4, 0], [0, 1, 2]] [1, 1, 0] [1, 2] =
     Inr [Finite (8738133 / 262144), Finite (8738133 / 131072)] \<and>
   hits topk_indices 2 [[1, 3, 2], [5, 4, 0], [0, 1, 2]] [1, 1, 0] 1 = 1 \<and>
   hits topk_indices 2 [[1, 3, 2], [5, 4, 0], [0, 1, 2]] [1, 1, 0] 2 = 2 \<and>
   \<bar>8738133 / 262144 - 100 * 1 / 3\<bar> \<le> (100 * 1 / 3 * 2 powi (- 22) :: rat) \<and>
   is_top_k [5, 4, 0] 1 [0]"
proof -
  let ?output = "[[1, 3, 2], [5, 4, 0], [0, 1, 2 :: rat]]"
  let ?target = "[1, 1, 0 :: int]"
  let ?topk = "[1, 2 :: int]"
  have ne: "?target \<noteq> []" by simp
  have small: "length ?target \<le> 2 ^ 24" by simp
  have len: "length ?output = length ?target" by simp
  have tk: "?topk \<noteq> []" by simp
  have range: "\<forall>k\<in>set ?topk. 0 \<le> k \<and> (\<forall>row\<in>set ?output. k \<le> int (length row))"
    by simp
  have M: "nat (Max (set ?topk)) = 2" by simp
  have sel: "\<forall>row\<in>set ?output. is_top_k row (nat (Max (set ?topk))) (topk_indices row (nat (Max (set ?topk))))"
    unfolding M by (auto intro: topk_indices_is_top_k)
  have h1: "hits topk_indices 2 ?output ?target 1 = 1" by code_simp
  have h2: "hits topk_indices 2 ?output ?target 2 = 2" by code_simp
  have t: "take 1 (topk_indices [5, 4, 0] 2) = [0]" by code_simp
  have n1: "nat (1 :: int) = 1" and n2: "nat (2 :: int) = 2" and l3: "length ?target = 3"
    by simp_all
  note inst = accuracy_topk_percentage [where sel = topk_indices, OF ne small len tk range sel, unfolded M]
  from inst have "accuracy topk_indices ?output ?target ?topk =
      Inr (map (\<lambda>k. Finite (percent_f32 (hits topk_indices 2 ?output ?target (nat k)) (length ?target))) ?topk)"
    by (rule conjunct1)
  then have a: "accuracy topk_indices ?output ?target ?topk =
     Inr [Finite (8738133 / 262144), Finite (8738133 / 131072)]"
    by (simp only: list.map n1 n2 l3 h1 h2 percent_f32_1_3 percent_f32_2_3)
  have k1: "(1 :: int) \<in> set ?topk" by simp
  from inst have all: "\<forall>k\<in>set ?topk.
            hits topk_indices 2 ?output ?target (nat k) \<le> length ?target \<and>
            0 \<le> percent_f32 (hits topk_indices 2 ?output ?target (nat k)) (length ?target) \<and>
            \<bar>percent_f32 (hits topk_indices 2 ?output ?target (nat k)) (length ?target) -
               100 * of_nat (hits topk_indices 2 ?output ?target (nat k)) / of_nat (length ?target)\<bar>
              \<le> 100 * of_nat (hits topk_indices 2 ?output ?target (nat k)) / of_nat (length ?target)
                  * 2 powi (- 22) \<and>
            (\<forall>row\<in>set ?output. is_top_k row (nat k) (take (nat k) (topk_indices row 2)))"
    by (rule conjunct2)
  note a1 = bspec [OF all k1, unfolded n1 l3 h1 percent_f32_1_3]
  from a1 have e: "\<bar>8738133 / 262144 - 100 * 1 / 3\<bar> \<le> (100 * 1 / 3 * 2 powi (- 22) :: rat)"
    by simp
  from a1 have "\<forall>row\<in>set ?output. is_top_k row 1 (take 1 (topk_indices row 2))" by blast
  then have "is_top_k [5, 4, 0] 1 (take 1 (topk_indices [5, 4, 0] 2))" by simp
  then have i: "is_top_k [5, 4, 0] 1 [0]" by (simp only: t)
  from a h1 h2 e i show ?thesis by blast
qed

text \<open>
  The claim as stated bounds every entry by 100. The rounded entry can exceed it:
  for 45 examples that are all hits, \<^verbatim>\<open>100.0 / 45\<close> rounds up in \<^verbatim>\<open>float32\<close>
  and the product with 45 rounds to \<open>100 + 2\<^sup>-\<^sup>1\<^sup>7\<close>.
\<close>

theorem accuracy_exceeds_100_counterexample:
  "accuracy topk_indices (replicate 45 [1, 0]) (replicate 45 0) [1] = Inr [Finite (13107201 / 131072)] \<and>
   hits topk_indices 1 (replicate 45 [1, 0]) (replicate 45 0) 1 = 45 \<and>
   (100 :: rat) < 13107201 / 131072"
proof -
  let ?output = "replicate 45 [1, 0 :: rat]"
  let ?target = "replicate 45 (0 :: int)"
  have ne: "?target \<noteq> []" by simp
  have small: "length ?target \<le> 2 ^ 24" by simp
  have len: "length ?output = length ?target" by simp
  have tk: "[1 :: int] \<noteq> []" by simp
  have range: "\<forall>k\<in>set [1 :: int]. 0 \<le> k \<and> (\<forall>row\<in>set ?output. k \<le> int (length row))"
    by simp
  have M: "nat (Max (set [1 :: int])) = 1" by simp
  have sel: "\<forall>row\<in>set ?output. is_top_k row (nat (Max (set [1 :: int]))) (topk_indices row (nat (Max (set [1 :: int]))))"
    unfolding M by (auto intro: topk_indices_is_top_k)
  have h: "hits topk_indices 1 ?output ?target 1 = 45" by code_simp
  have n1: "nat (1 :: int) = 1" and l: "length ?target = 45" by simp_all
  from accuracy_value [where sel = topk_indices, OF ne small len tk range sel, unfolded M]
  have "accuracy topk_indices ?output ?target [1] = Inr [Finite (13107201 / 131072)]"
    by (simp only: list.map n1 l h percent_f32_45_45)
  moreover have "(100 :: rat) < 13107201 / 131072" by simp
  ultimately show ?thesis using h by blast
qed

subsection \<open>coverage\_size\<close>

text \<open>
  Claim C2 (the code departs from it). Two examples of the single class 0, each
  prediction set containing class 0: coverage and size of class 0 are both 1, so
  minimum, maximum and median over the observed classes are 1. The arrays
  \<open>cvgs\<close> and \<open>szs\<close> have shape \<open>counts = [2]\<close>, one entry more than there are
  classes; the entry never assigned stays 0 and enters the statistics.
\<close>

theorem coverage_size_per_class_spurious_zero:
  "coverage_size [[True], [True]] [0, 0] =
     Inr \<lparr>cvg = Val 1, sz = Val 1,
          cls_cvg_min = Val 0, cls_cvg_max = Val 1, cls_cvg_median = Val (1 / 2),
          cls_sz_min = Val 0, cls_sz_max = Val 1, cls_sz_median = Val (1 / 2)\<rparr> \<and>
   np_unique [0, 0] = ([0], [2]) \<and>
   spec_class_coverage [[True], [True]] [0, 0] 0 = Val 1 \<and>
   spec_class_size [[True], [True]] [0, 0] 0 = Val 1"
  by code_simp

text \<open>
  Claim C5 (the code departs from it). Three examples of the classes 0, 1, 2, with
  prediction sets holding exactly the true class, all classes, or no class:
  \<open>counts = [1, 1, 1]\<close> makes \<open>cvgs\<close> an array of shape \<open>1 \<times> 1 \<times> 1\<close>, the
  assignment \<open>cvgs[1]\<close> for the second class raises \<^verbatim>\<open>IndexError\<close>, and nothing is
  returned.
\<close>

theorem coverage_size_scenarios_raise:
  "coverage_size [[True, False, False], [False, True, False], [False, False, True]] [0, 1, 2] = Inl IndexError \<and>
   coverage_size [[True, True, True], [True, True, True], [True, True, True]] [0, 1, 2] = Inl IndexError \<and>
   coverage_size [[False, False, False], [False, False, False], [False, False, False]] [0, 1, 2] = Inl IndexError"
  by code_simp

subsection \<open>get\_logits\_targets\<close>

lemma float32_long_exact: "\<bar>t\<bar> < 2 ^ 24 \<Longrightarrow> float32_long t = t"
proof -
  assume a: "\<bar>t\<bar> < 2 ^ 24"
  have r: "float32_round_nat n = n" if "n < 2 ^ 24" for n
  proof -
    have "float32_shift n = 0" using that by (simp add: float32_shift.simps)
    then show ?thesis by (simp add: float32_round_nat_def)
  qed
  show ?thesis
  proof (cases "0 \<le> t")
    case True
    with a have "nat t < 2 ^ 24" by (simp add: nat_less_iff)
    then show ?thesis using True by (simp add: float32_long_def r)
  next
    case False
    with a have "nat (- t) < 2 ^ 24" by (simp add: nat_less_iff)
    then show ?thesis using False by (simp add: float32_long_def r)
  qed
qed

lemma broadcast_to_same: "length v = m \<Longrightarrow> broadcast_to m v = Inr v"
  by (simp add: broadcast_to_def)

lemma collect_all_Inr: "collect (map Inr xs) = Inr xs"
  by (induction xs) simp_all

lemma collect_broadcast_rows:
  assumes "\<forall>r\<in>set v. length r = n_classes"
  shows "collect (map (broadcast_to n_classes) v) = Inr v"
  using assms by (induction v) (simp_all add: broadcast_to_same)

lemma assign_slice_fits:
  assumes "lo + length v \<le> length xs"
  shows "assign_slice xs lo (lo + length v) v = Inr (take lo xs @ v @ drop (lo + length v) xs)"
proof -
  from assms have "min lo (length xs) = lo" "min (lo + length v) (length xs) = lo + length v"
    by simp_all
  then show ?thesis
    by (simp add: assign_slice_def Let_def broadcast_to_same)
qed

lemma assign_rows_fits:
  assumes "lo + length v \<le> length tbl" and "\<forall>r\<in>set v. length r = n_classes"
  shows "assign_rows tbl lo (lo + length v) v = Inr (take lo tbl @ v @ drop (lo + length v) tbl)"
  by (simp add: assign_rows_def collect_broadcast_rows [OF assms(2)] assign_slice_fits [OF assms(1)])

lemma take_filled:
  assumes "a \<le> length xs" and "length v = b"
  shows "take (a + b) (take a xs @ v @ drop (a + b) xs) = take a xs @ v"
  using assms by simp

lemma drop_filled:
  assumes "a \<le> length xs" and "length v = b"
  shows "drop (a + b + c) (take a xs @ v @ drop (a + b) xs) = drop (a + b + c) xs"
  using assms by (simp add: add.commute)

lemma run_batches_fill:
  assumes "well_shaped model bs"
    and "i st + examples_in bs \<le> length (logits st)"
    and "length (labels st) = length (logits st)"
  shows "run_batches model bs st =
     Inr \<lparr>logits = take (i st) (logits st) @ concat (map (\<lambda>(x, targets). projr (model x)) bs)
                     @ drop (i st + examples_in bs) (logits st),
          labels = take (i st) (labels st) @ map float32_long (concat (map snd bs))
                     @ drop (i st + examples_in bs) (labels st),
          i = i st + examples_in bs\<rparr>"
  using assms
proof (induction bs arbitrary: st)
  case Nil
  then show ?case by (simp add: examples_in_def)
next
  case (Cons b bs)
  obtain x targets where b: "b = (x, targets)" by (cases b)
  let ?n = "length x"
  from Cons.prems(1) b obtain rows where
    lt: "length targets = ?n" and m: "model x = Inr rows" and lr: "length rows = ?n"
    and w: "\<forall>r\<in>set rows. length r = n_classes" and rest: "well_shaped model bs"
    by (auto simp: well_shaped_def)
  have ex: "examples_in (b # bs) = ?n + examples_in bs"
    by (simp add: examples_in_def b)
  from Cons.prems(2) ex have fitL: "i st + length rows \<le> length (logits st)"
    by (simp add: lr)
  from Cons.prems(2,3) ex have fitB: "i st + length (map float32_long targets) \<le> length (labels st)"
    by (simp add: lt)
  have il: "i st \<le> length (logits st)" "i st \<le> length (labels st)"
    using fitL fitB by simp_all
  let ?L = "take (i st) (logits st) @ rows @ drop (i st + ?n) (logits st)"
  let ?B = "take (i st) (labels st) @ map float32_long targets @ drop (i st + ?n) (labels st)"
  let ?st1 = "\<lparr>logits = ?L, labels = ?B, i = i st + ?n\<rparr>"
  have aL: "assign_rows (logits st) (i st) (i st + ?n) rows = Inr ?L"
    using assign_rows_fits [OF fitL w] by (simp add: lr)
  have aB: "assign_slice (labels st) (i st) (i st + ?n) (map float32_long targets) = Inr ?B"
    using assign_slice_fits [OF fitB] by (simp add: lt)
  have step: "run_batches model (b # bs) st = run_batches model bs ?st1"
    by (simp add: b m aL aB)
  have lenL: "length ?L = length (logits st)"
    using fitL by (simp add: lr)
  have lenB: "length ?B = length (labels st)"
    using fitB by (simp add: lt)
  have p2: "i ?st1 + examples_in bs \<le> length (logits ?st1)"
    using Cons.prems(2) ex lenL by simp
  have p3: "length (labels ?st1) = length (logits ?st1)"
    using Cons.prems(3) lenL lenB by simp
  have tL: "take (i st + ?n) ?L = take (i st) (logits st) @ rows"
    using il(1) lr by (rule take_filled)
  have tB: "take (i st + ?n) ?B = take (i st) (labels st) @ map float32_long targets"
    using il(2) by (rule take_filled) (simp add: lt)
  have dL: "drop (i st + ?n + examples_in bs) ?L = drop (i st + ?n + examples_in bs) (logits st)"
    using il(1) lr by (rule drop_filled)
  have dB: "drop (i st + ?n + examples_in bs) ?B = drop (i st + ?n + examples_in bs) (labels st)"
    using il(2) by (rule drop_filled) (simp add: lt)
  have ih: "run_batches model bs ?st1 =
     Inr \<lparr>logits = take (i st + ?n) ?L @ concat (map (\<lambda>(x, targets). projr (model x)) bs)
                     @ drop (i st + ?n + examples_in bs) ?L,
          labels = take (i st + ?n) ?B @ map float32_long (concat (map snd bs))
                     @ drop (i st + ?n + examples_in bs) ?B,
          i = i st + ?n + examples_in bs\<rparr>"
    using Cons.IH [OF rest p2 p3] by (simp only: cursor_state.select_convs)
  show ?case
    unfolding step ih tL tB dL dB by (simp add: ex [unfolded b] b m add.assoc)
qed


lemma examples_in_append: "examples_in (as @ bs) = examples_in as + examples_in bs"
  by (simp add: examples_in_def)

lemma examples_in_take_le: "examples_in (take k bs) \<le> examples_in bs"
proof -
  have "examples_in bs = examples_in (take k bs @ drop k bs)" by simp
  also have "\<dots> = examples_in (take k bs) + examples_in (drop k bs)"
    by (rule examples_in_append)
  finally show ?thesis by simp
qed

lemma well_shaped_take: "well_shaped model bs \<Longrightarrow> well_shaped model (take k bs)"
  unfolding well_shaped_def by (meson in_set_takeD)

lemma well_shaped_rows_length:
  "well_shaped model bs \<Longrightarrow>
   length (concat (map (\<lambda>(x, targets). projr (model x)) bs)) = examples_in bs"
proof (induction bs)
  case Nil
  then show ?case by (simp add: examples_in_def)
next
  case (Cons b bs)
  obtain x targets where b: "b = (x, targets)" by (cases b)
  from Cons.prems b obtain rows where "model x = Inr rows" "length rows = length x"
    and rest: "well_shaped model bs"
    by (auto simp: well_shaped_def)
  then show ?case
    using Cons.IH [OF rest] by (simp add: b examples_in_def)
qed

lemma well_shaped_targets_length:
  "well_shaped model bs \<Longrightarrow> length (concat (map snd bs)) = examples_in bs"
proof (induction bs)
  case Nil
  then show ?case by (simp add: examples_in_def)
next
  case (Cons b bs)
  obtain x targets where b: "b = (x, targets)" by (cases b)
  from Cons.prems b have "length targets = length x" and rest: "well_shaped model bs"
    by (auto simp: well_shaped_def)
  then show ?case
    using Cons.IH [OF rest] by (simp add: b examples_in_def)
qed

lemma run_batches_from_initial:
  fixes model :: "'x list \<Rightarrow> py_error + 'a::zero list list"
  assumes "well_shaped model bs" and "examples_in bs \<le> n"
  shows "run_batches model bs (initial_state n) =
     Inr \<lparr>logits = concat (map (\<lambda>(x, targets). projr (model x)) bs)
                     @ replicate (n - examples_in bs) (replicate n_classes 0),
          labels = map float32_long (concat (map snd bs)) @ replicate (n - examples_in bs) 0,
          i = examples_in bs\<rparr>"
proof -
  let ?st = "initial_state n :: 'a cursor_state"
  have "i ?st + examples_in bs \<le> length (logits ?st)" "length (labels ?st) = length (logits ?st)"
    using assms(2) by (simp_all add: initial_state_def)
  from run_batches_fill [OF assms(1) this]
  show ?thesis by (simp add: initial_state_def)
qed

text \<open>
  Claim C7. When the network returns, for every batch, one row of 1000 scores
  per input, every batch has one label per input, and the batches hold
  \<^verbatim>\<open>len(loader.dataset)\<close> examples in all, \<^verbatim>\<open>get_logits_targets\<close> returns a
  table of exactly \<^verbatim>\<open>len(loader.dataset)\<close> rows, which are the rows of the
  batches in order, and as many labels, which are the labels of the batches in
  order as stored in a 32-bit float, hence the labels themselves when they are
  below \<open>2 ^ 24\<close> in magnitude; after each batch the cursor is the number of
  examples processed so far.
\<close>

theorem get_logits_targets_fills_table:
  fixes model :: "'x list \<Rightarrow> py_error + 'a::zero list list"
  assumes ws: "well_shaped model (batches loader)"
    and tot: "examples_in (batches loader) = dataset_len loader"
  shows "get_logits_targets model loader =
           Inr (concat (map (\<lambda>(x, targets). projr (model x)) (batches loader)),
                map float32_long (concat (map snd (batches loader)))) \<and>
         length (concat (map (\<lambda>(x, targets). projr (model x)) (batches loader))) = dataset_len loader \<and>
         length (map float32_long (concat (map snd (batches loader)))) = dataset_len loader \<and>
         ((\<forall>t\<in>set (concat (map snd (batches loader))). \<bar>t\<bar> < 2 ^ 24) \<longrightarrow>
            map float32_long (concat (map snd (batches loader))) = concat (map snd (batches loader))) \<and>
         (\<forall>k\<le>length (batches loader).
            \<exists>st. run_batches model (take k (batches loader)) (initial_state (dataset_len loader)) = Inr st \<and>
                 i st = examples_in (take k (batches loader)))"
proof -
  let ?bs = "batches loader"
  let ?n = "dataset_len loader"
  have le: "examples_in ?bs \<le> ?n" using tot by simp
  have run: "run_batches model ?bs (initial_state ?n) =
     Inr \<lparr>logits = concat (map (\<lambda>(x, targets). projr (model x)) ?bs)
                     @ replicate (?n - examples_in ?bs) (replicate n_classes 0),
          labels = map float32_long (concat (map snd ?bs)) @ replicate (?n - examples_in ?bs) 0,
          i = examples_in ?bs\<rparr>"
    using ws le by (rule run_batches_from_initial)
  have 1: "get_logits_targets model loader =
           Inr (concat (map (\<lambda>(x, targets). projr (model x)) ?bs), map float32_long (concat (map snd ?bs)))"
    by (simp add: get_logits_targets_def run tot)
  have 2: "length (concat (map (\<lambda>(x, targets). projr (model x)) ?bs)) = ?n"
    using well_shaped_rows_length [OF ws] tot by simp
  have 3: "length (map float32_long (concat (map snd ?bs))) = ?n"
    using well_shaped_targets_length [OF ws] tot by simp
  have 4: "(\<forall>t\<in>set (concat (map snd ?bs)). \<bar>t\<bar> < 2 ^ 24) \<longrightarrow>
            map float32_long (concat (map snd ?bs)) = concat (map snd ?bs)"
  proof
    assume "\<forall>t\<in>set (concat (map snd ?bs)). \<bar>t\<bar> < 2 ^ 24"
    then have "map float32_long (concat (map snd ?bs)) = map (\<lambda>t. t) (concat (map snd ?bs))"
      by (intro map_cong refl float32_long_exact) blast
    then show "map float32_long (concat (map snd ?bs)) = concat (map snd ?bs)" by simp
  qed
  have 5: "\<forall>k\<le>length ?bs.
            \<exists>st. run_batches model (take k ?bs) (initial_state ?n) = Inr st \<and>
                 i st = examples_in (take k ?bs)"
  proof (intro allI impI)
    fix k assume "k \<le> length ?bs"
    have w: "well_shaped model (take k ?bs)" using ws by (rule well_shaped_take)
    have l: "examples_in (take k ?bs) \<le> ?n"
      using examples_in_take_le [of k ?bs] tot by simp
    show "\<exists>st. run_batches model (take k ?bs) (initial_state ?n) = Inr st \<and>
                 i st = examples_in (take k ?bs)"
      using run_batches_from_initial [OF w l] by simp
  qed
  from 1 2 3 4 5 show ?thesis by blast
qed

theorem get_logits_targets_fills_table_witness:
  "get_logits_targets (\<lambda>x. Inr (map (\<lambda>v. replicate n_classes v) x))
     \<lparr>dataset_len = 3, batches = [([1 :: int, 2], [0, 1]), ([3], [2])]\<rparr> =
     Inr ([replicate n_classes 1, replicate n_classes 2, replicate n_classes 3], [0, 1, 2]) \<and>
   examples_in [([1 :: int, 2], [0, 1 :: int]), ([3], [2])] = 3"
proof -
  let ?model = "\<lambda>x :: int list. Inr (map (\<lambda>v. replicate n_classes v) x) :: py_error + int list list"
  let ?loader = "\<lparr>dataset_len = 3, batches = [([1 :: int, 2], [0, 1]), ([3], [2])]\<rparr>"
  have ws: "well_shaped ?model (batches ?loader)"
    by (simp add: well_shaped_def)
  have tot: "examples_in (batches ?loader) = dataset_len ?loader"
    by (simp add: examples_in_def)
  have ex: "\<forall>t\<in>set (concat (map snd (batches ?loader))). \<bar>t\<bar> < 2 ^ 24"
    by simp
  from get_logits_targets_fills_table [OF ws tot] ex tot
  show ?thesis by simp
qed

subsection \<open>get\_logits\_dataset\<close>

lemma chunks_concat: "0 < n \<Longrightarrow> concat (chunks n xs) = xs"
proof (induction n xs rule: chunks.induct)
  case (1 n xs)
  show ?case
  proof (cases "xs = []")
    case True
    then show ?thesis by (simp add: chunks.simps)
  next
    case False
    with 1 have "concat (chunks n (drop n xs)) = drop n xs" by simp
    then show ?thesis using False 1(2) by (subst chunks.simps) simp
  qed
qed

lemma loader_inputs_labels:
  "concat (map snd (batches (data_loader dataset))) = map snd dataset"
proof -
  have "concat (map snd (batches (data_loader dataset))) = map snd (concat (chunks 32 dataset))"
    by (simp add: data_loader_def map_concat comp_def)
  then show ?thesis by (simp add: chunks_concat)
qed

lemma loader_examples: "examples_in (batches (data_loader dataset)) = length dataset"
proof -
  have "examples_in (batches (data_loader dataset)) = length (concat (chunks 32 dataset))"
    by (simp add: examples_in_def data_loader_def length_concat comp_def case_prod_beta)
  then show ?thesis by (simp add: chunks_concat)
qed

lemma get_logits_targets_loader:
  fixes model :: "'x list \<Rightarrow> py_error + 'a::zero list list"
  assumes ws: "well_shaped model (batches (data_loader dataset))"
  shows "get_logits_targets model (data_loader dataset) =
           Inr (concat (map (\<lambda>(x, targets). projr (model x)) (batches (data_loader dataset))),
                map float32_long (map snd dataset))"
proof -
  let ?bs = "batches (data_loader dataset)"
  have n: "dataset_len (data_loader dataset) = length dataset" by (simp add: data_loader_def)
  have le: "examples_in ?bs \<le> length dataset" by (simp add: loader_examples)
  note run = run_batches_from_initial [OF ws le]
  show ?thesis
    by (simp add: get_logits_targets_def n run loader_examples loader_inputs_labels)
qed

lemma get_logits_dataset_miss:
  fixes env :: "('x, 'a::zero, 'b) env"
  assumes miss: "fs (cache_path cache datasetname modelname) = None"
    and gm: "get_model modelname = Inr model"
    and img: "image_folder env datasetpath = Inr dataset"
    and ws: "well_shaped (network env model) (batches (data_loader dataset))"
  shows "get_logits_dataset env modelname datasetname datasetpath cache fs =
           (Inr (concat (map (\<lambda>(x, targets). projr (network env model x)) (batches (data_loader dataset))),
                 map float32_long (map snd dataset)),
            fs(cache_path cache datasetname modelname \<mapsto>
                 pickle_dumps env
                   (concat (map (\<lambda>(x, targets). projr (network env model x)) (batches (data_loader dataset))),
                    map float32_long (map snd dataset))))"
  by (simp add: get_logits_dataset_def miss gm img get_logits_targets_loader [OF ws])

lemma get_logits_dataset_hit:
  assumes "fs (cache_path cache datasetname modelname) = Some b"
  shows "get_logits_dataset env modelname datasetname datasetpath cache fs = (pickle_loads env b, fs)"
  by (simp add: get_logits_dataset_def assms)

lemma example_chunks: "chunks 32 [(1 :: int, 0 :: int), (2, 1), (3, 2)] = [[(1, 0), (2, 1), (3, 2)]]"
  by (simp add: chunks.simps)

lemma example_labels: "float32_long 0 = 0" "float32_long 1 = 1" "float32_long 2 = 2"
  using float32_long_exact [of 0] float32_long_exact [of 1] float32_long_exact [of 2] by simp_all

lemma example_miss:
  "get_logits_dataset
     \<lparr>network = \<lambda>a x. Inr (map (\<lambda>v. replicate n_classes v) x),
      image_folder = \<lambda>p. Inr [(1 :: int, 0), (2, 1), (3, 2)],
      pickle_dumps = Some,
      pickle_loads = \<lambda>b. case b of None \<Rightarrow> Inl UnpicklingError | Some d \<Rightarrow> Inr d\<rparr>
     ''ResNet18'' ''imagenet'' ''val/'' ''cache/'' Map.empty =
   (Inr ([replicate n_classes (1 :: int), replicate n_classes 2, replicate n_classes 3], [0, 1, 2]),
    [''cache/imagenet/ResNet18.pkl'' \<mapsto>
       Some ([replicate n_classes 1, replicate n_classes 2, replicate n_classes 3], [0, 1, 2])])"
proof -
  let ?env = "\<lparr>network = \<lambda>a x. Inr (map (\<lambda>v. replicate n_classes v) x),
      image_folder = \<lambda>p. Inr [(1 :: int, 0), (2, 1), (3, 2)],
      pickle_dumps = Some,
      pickle_loads = \<lambda>b. case b of None \<Rightarrow> Inl UnpicklingError | Some d \<Rightarrow> Inr d\<rparr>
      :: (int, int, (int list list \<times> int list) option) env"
  have p: "cache_path ''cache/'' ''imagenet'' ''ResNet18'' = ''cache/imagenet/ResNet18.pkl''"
    by (simp add: cache_path_def)
  have miss: "Map.empty (cache_path ''cache/'' ''imagenet'' ''ResNet18'') = (None :: (int list list \<times> int list) option option)"
    by simp
  have gm: "get_model ''ResNet18'' = Inr resnet18" by (simp add: get_model_def)
  have img: "image_folder ?env ''val/'' = Inr [(1, 0), (2, 1), (3, 2)]" by simp
  have ws: "well_shaped (network ?env resnet18) (batches (data_loader [(1 :: int, 0), (2, 1), (3, 2)]))"
    by (simp add: well_shaped_def data_loader_def example_chunks)
  from get_logits_dataset_miss [where fs = Map.empty and cache = "''cache/''"
      and datasetname = "''imagenet''" and env = ?env, OF miss gm img ws]
  show ?thesis by (simp add: p data_loader_def example_chunks example_labels)
qed

text \<open>
  Claim C4, as amended. When there is no file at the derived path, the model name
  is recognised, the image folder can be read and the network returns one row of
  1000 scores for each image, \<^verbatim>\<open>get_logits_dataset\<close> computes the dataset (the
  rows of the batches in order and the labels) and returns it, and it stores its
  pickle at the derived path. When there is a file at the path that
  \<^verbatim>\<open>pickle.load\<close> cannot read, the exception of \<^verbatim>\<open>pickle.load\<close> is raised:
  nothing is recomputed and the file system is as before.
\<close>

theorem get_logits_dataset_missing_or_corrupt:
  fixes env :: "('x, 'a::zero, 'b) env"
  shows "(fs (cache_path cache datasetname modelname) = None \<and> get_model modelname = Inr model \<and>
          image_folder env datasetpath = Inr dataset \<and>
          well_shaped (network env model) (batches (data_loader dataset)) \<longrightarrow>
          get_logits_dataset env modelname datasetname datasetpath cache fs =
            (Inr (concat (map (\<lambda>(x, targets). projr (network env model x)) (batches (data_loader dataset))),
                  map float32_long (map snd dataset)),
             fs(cache_path cache datasetname modelname \<mapsto>
                  pickle_dumps env
                    (concat (map (\<lambda>(x, targets). projr (network env model x)) (batches (data_loader dataset))),
                     map float32_long (map snd dataset))))) \<and>
         (fs (cache_path cache datasetname modelname) = Some b \<and> pickle_loads env b = Inl e \<longrightarrow>
          get_logits_dataset env modelname datasetname datasetpath cache fs = (Inl e, fs))"
  using get_logits_dataset_miss [of fs cache datasetname modelname model env datasetpath dataset]
    get_logits_dataset_hit [of fs cache datasetname modelname b env datasetpath]
  by auto

theorem get_logits_dataset_missing_or_corrupt_witness:
  "get_logits_dataset
     \<lparr>network = \<lambda>a x. Inr (map (\<lambda>v. replicate n_classes v) x),
      image_folder = \<lambda>p. Inr [(1 :: int, 0), (2, 1), (3, 2)],
      pickle_dumps = Some,
      pickle_loads = \<lambda>b. case b of None \<Rightarrow> Inl UnpicklingError | Some d \<Rightarrow> Inr d\<rparr>
     ''ResNet18'' ''imagenet'' ''val/'' ''cache/'' Map.empty =
   (Inr ([replicate n_classes (1 :: int), replicate n_classes 2, replicate n_classes 3], [0, 1, 2]),
    [''cache/imagenet/ResNet18.pkl'' \<mapsto>
       Some ([replicate n_classes 1, replicate n_classes 2, replicate n_classes 3], [0, 1, 2])]) \<and>
   get_logits_dataset
     \<lparr>network = \<lambda>a x. Inr (map (\<lambda>v. replicate n_classes v) x),
      image_folder = \<lambda>p. Inr [(1 :: int, 0), (2, 1), (3, 2)],
      pickle_dumps = Some,
      pickle_loads = \<lambda>b. case b of None \<Rightarrow> Inl UnpicklingError | Some d \<Rightarrow> Inr d\<rparr>
     ''ResNet18'' ''imagenet'' ''val/'' ''cache/''
     [''cache/imagenet/ResNet18.pkl'' \<mapsto> (None :: (int list list \<times> int list) option)] =
   (Inl UnpicklingError, [''cache/imagenet/ResNet18.pkl'' \<mapsto> None])"
proof -
  let ?env = "\<lparr>network = \<lambda>a x. Inr (map (\<lambda>v. replicate n_classes v) x),
      image_folder = \<lambda>p. Inr [(1 :: int, 0), (2, 1), (3, 2)],
      pickle_dumps = Some,
      pickle_loads = \<lambda>b. case b of None \<Rightarrow> Inl UnpicklingError | Some d \<Rightarrow> Inr d\<rparr>
      :: (int, int, (int list list \<times> int list) option) env"
  let ?bad = "[''cache/imagenet/ResNet18.pkl'' \<mapsto> (None :: (int list list \<times> int list) option)]"
  have p: "cache_path ''cache/'' ''imagenet'' ''ResNet18'' = ''cache/imagenet/ResNet18.pkl''"
    by (simp add: cache_path_def)
  have miss: "Map.empty (cache_path ''cache/'' ''imagenet'' ''ResNet18'') = (None :: (int list list \<times> int list) option option)"
    by simp
  have gm: "get_model ''ResNet18'' = Inr resnet18" by (simp add: get_model_def)
  have img: "image_folder ?env ''val/'' = Inr [(1, 0), (2, 1), (3, 2)]" by simp
  have ws: "well_shaped (network ?env resnet18) (batches (data_loader [(1 :: int, 0), (2, 1), (3, 2)]))"
    by (simp add: well_shaped_def data_loader_def example_chunks)
  have hit: "?bad (cache_path ''cache/'' ''imagenet'' ''ResNet18'') = Some None"
    by (simp add: p)
  have bad: "pickle_loads ?env None = Inl UnpicklingError" by simp
  note t1 = get_logits_dataset_missing_or_corrupt
    [where fs = Map.empty and cache = "''cache/''" and datasetname = "''imagenet''"
       and modelname = "''ResNet18''" and model = resnet18 and env = ?env
       and datasetpath = "''val/''" and dataset = "[(1, 0), (2, 1), (3, 2)]", THEN conjunct1, rule_format]
  note t2 = get_logits_dataset_missing_or_corrupt
    [where fs = ?bad and cache = "''cache/''" and datasetname = "''imagenet''"
       and modelname = "''ResNet18''" and env = ?env and b = None and e = UnpicklingError
       and datasetpath = "''val/''", THEN conjunct2, rule_format]
  have 1: "get_logits_dataset ?env ''ResNet18'' ''imagenet'' ''val/'' ''cache/'' Map.empty =
   (Inr ([replicate n_classes (1 :: int), replicate n_classes 2, replicate n_classes 3], [0, 1, 2]),
    [''cache/imagenet/ResNet18.pkl'' \<mapsto>
       Some ([replicate n_classes 1, replicate n_classes 2, replicate n_classes 3], [0, 1, 2])])"
    using t1 [OF conjI [OF miss conjI [OF gm conjI [OF img ws]]]]
    by (simp add: p data_loader_def example_chunks example_labels)
  have 2: "get_logits_dataset ?env ''ResNet18'' ''imagenet'' ''val/'' ''cache/'' ?bad =
           (Inl UnpicklingError, ?bad)"
    using t2 [OF conjI [OF hit bad]] .
  from 1 2 show ?thesis by (rule conjI)
qed

text \<open>
  The claim as stated treats a corrupt file as a cache miss. With a file at the
  path that is not a pickle, the call raises \<^verbatim>\<open>UnpicklingError\<close> and leaves the
  file, although with no file at the path the same call computes the dataset and
  writes it.
\<close>

theorem get_logits_dataset_corrupt_counterexample:
  "get_logits_dataset
     \<lparr>network = \<lambda>a x. Inr (map (\<lambda>v. replicate n_classes v) x),
      image_folder = \<lambda>p. Inr [(1 :: int, 0), (2, 1), (3, 2)],
      pickle_dumps = Some,
      pickle_loads = \<lambda>b. case b of None \<Rightarrow> Inl UnpicklingError | Some d \<Rightarrow> Inr d\<rparr>
     ''ResNet18'' ''imagenet'' ''val/'' ''cache/''
     [''cache/imagenet/ResNet18.pkl'' \<mapsto> (None :: (int list list \<times> int list) option)] =
   (Inl UnpicklingError, [''cache/imagenet/ResNet18.pkl'' \<mapsto> None]) \<and>
   get_logits_dataset
     \<lparr>network = \<lambda>a x. Inr (map (\<lambda>v. replicate n_classes v) x),
      image_folder = \<lambda>p. Inr [(1 :: int, 0), (2, 1), (3, 2)],
      pickle_dumps = Some,
      pickle_loads = \<lambda>b. case b of None \<Rightarrow> Inl UnpicklingError | Some d \<Rightarrow> Inr d\<rparr>
     ''ResNet18'' ''imagenet'' ''val/'' ''cache/'' Map.empty =
   (Inr ([replicate n_classes (1 :: int), replicate n_classes 2, replicate n_classes 3], [0, 1, 2]),
    [''cache/imagenet/ResNet18.pkl'' \<mapsto>
       Some ([replicate n_classes 1, replicate n_classes 2, replicate n_classes 3], [0, 1, 2])])"
proof -
  let ?env = "\<lparr>network = \<lambda>a x. Inr (map (\<lambda>v. replicate n_classes v) x),
      image_folder = \<lambda>p. Inr [(1 :: int, 0), (2, 1), (3, 2)],
      pickle_dumps = Some,
      pickle_loads = \<lambda>b. case b of None \<Rightarrow> Inl UnpicklingError | Some d \<Rightarrow> Inr d\<rparr>
      :: (int, int, (int list list \<times> int list) option) env"
  let ?bad = "[''cache/imagenet/ResNet18.pkl'' \<mapsto> (None :: (int list list \<times> int list) option)]"
  have p: "cache_path ''cache/'' ''imagenet'' ''ResNet18'' = ''cache/imagenet/ResNet18.pkl''"
    by (simp add: cache_path_def)
  have hit: "?bad (cache_path ''cache/'' ''imagenet'' ''ResNet18'') = Some None"
    by (simp add: p)
  have "get_logits_dataset ?env ''ResNet18'' ''imagenet'' ''val/'' ''cache/'' ?bad =
        (pickle_loads ?env None, ?bad)"
    using hit by (rule get_logits_dataset_hit)
  then have 1: "get_logits_dataset ?env ''ResNet18'' ''imagenet'' ''val/'' ''cache/'' ?bad =
        (Inl UnpicklingError, ?bad)" by simp
  from 1 example_miss show ?thesis by (rule conjI)
qed

lemma repeat_calls_hit:
  assumes "fs (cache_path cache datasetname modelname) = Some b"
  shows "repeat_calls n env modelname datasetname datasetpath cache fs =
           (replicate n (pickle_loads env b), fs)"
  by (induction n) (simp_all add: get_logits_dataset_hit [where fs = fs, OF assms])

lemma get_logits_dataset_written:
  fixes env :: "('x, 'a::zero, 'b) env"
  assumes first: "get_logits_dataset env modelname datasetname datasetpath cache fs = (Inr d, fs')"
  shows "(\<exists>b. fs (cache_path cache datasetname modelname) = Some b \<and> pickle_loads env b = Inr d \<and> fs' = fs) \<or>
         (fs (cache_path cache datasetname modelname) = None \<and>
          fs' = fs(cache_path cache datasetname modelname \<mapsto> pickle_dumps env d))"
  using first
  by (auto simp: get_logits_dataset_def Let_def split: option.splits sum.splits)

text \<open>
  Claim C8. Provided that \<^verbatim>\<open>pickle.load\<close> returns what \<^verbatim>\<open>pickle.dump\<close> was
  given, once a call of \<^verbatim>\<open>get_logits_dataset\<close> has returned a dataset \<open>d\<close>
  and left the file system \<open>fs'\<close>, every later call with the same model name,
  dataset name and cache directory returns \<open>d\<close> and leaves \<open>fs'\<close> as it is,
  whatever the dataset path, the network and the image folder are then, so without
  inference and without a write; so do \<open>n\<close> calls in a row. The first call wrote
  the pickle of \<open>d\<close> when there was no file, and wrote nothing when there was one.
\<close>

theorem get_logits_dataset_idempotent:
  fixes env :: "('x, 'a::zero, 'b) env" and env' :: "('x, 'a::zero, 'b) env"
  assumes rt: "\<forall>d. pickle_loads env (pickle_dumps env d) = Inr d"
    and first: "get_logits_dataset env modelname datasetname datasetpath cache fs = (Inr d, fs')"
    and same: "pickle_loads env' = pickle_loads env"
  shows "get_logits_dataset env' modelname datasetname datasetpath' cache fs' = (Inr d, fs') \<and>
         repeat_calls n env' modelname datasetname datasetpath' cache fs' = (replicate n (Inr d), fs') \<and>
         (fs (cache_path cache datasetname modelname) = None \<longrightarrow>
            fs' = fs(cache_path cache datasetname modelname \<mapsto> pickle_dumps env d)) \<and>
         (fs (cache_path cache datasetname modelname) \<noteq> None \<longrightarrow> fs' = fs)"
proof -
  let ?p = "cache_path cache datasetname modelname"
  from get_logits_dataset_written [OF first]
  have cases: "(\<exists>b. fs ?p = Some b \<and> pickle_loads env b = Inr d \<and> fs' = fs) \<or>
               (fs ?p = None \<and> fs' = fs(?p \<mapsto> pickle_dumps env d))" .
  have "\<exists>b. fs' ?p = Some b \<and> pickle_loads env b = Inr d"
  proof (rule disjE [OF cases])
    assume "\<exists>b. fs ?p = Some b \<and> pickle_loads env b = Inr d \<and> fs' = fs"
    then show ?thesis by blast
  next
    assume a: "fs ?p = None \<and> fs' = fs(?p \<mapsto> pickle_dumps env d)"
    then have "fs' ?p = Some (pickle_dumps env d)" by simp
    moreover have "pickle_loads env (pickle_dumps env d) = Inr d" using rt by (rule spec)
    ultimately show ?thesis by blast
  qed
  then obtain b where b: "fs' ?p = Some b" and l: "pickle_loads env b = Inr d" by blast
  have l': "pickle_loads env' b = Inr d" using l same by simp
  have 1: "get_logits_dataset env' modelname datasetname datasetpath' cache fs' = (Inr d, fs')"
    using get_logits_dataset_hit [where fs = fs', OF b, of env' datasetpath'] l' by simp
  have 2: "repeat_calls n env' modelname datasetname datasetpath' cache fs' = (replicate n (Inr d), fs')"
    using repeat_calls_hit [where fs = fs', OF b, of n env' datasetpath'] l' by simp
  from cases have 3: "fs ?p = None \<longrightarrow> fs' = fs(?p \<mapsto> pickle_dumps env d)" by auto
  from cases have 4: "fs ?p \<noteq> None \<longrightarrow> fs' = fs" by auto
  from 1 2 3 4 show ?thesis by blast
qed

theorem get_logits_dataset_idempotent_witness:
  "get_logits_dataset
     (\<lparr>network = \<lambda>a x. Inl RuntimeError,
      image_folder = \<lambda>p. Inl FileNotFoundError,
      pickle_dumps = Some,
      pickle_loads = \<lambda>b. case b of None \<Rightarrow> Inl UnpicklingError | Some d \<Rightarrow> Inr d\<rparr>
      :: (int, int, (int list list \<times> int list) option) env)
     ''ResNet18'' ''imagenet'' ''elsewhere/'' ''cache/''
     [''cache/imagenet/ResNet18.pkl'' \<mapsto>
       Some ([replicate n_classes (1 :: int), replicate n_classes 2, replicate n_classes 3], [0, 1, 2])] =
   (Inr ([replicate n_classes (1 :: int), replicate n_classes 2, replicate n_classes 3], [0, 1, 2]),
    [''cache/imagenet/ResNet18.pkl'' \<mapsto>
       Some ([replicate n_classes 1, replicate n_classes 2, replicate n_classes 3], [0, 1, 2])]) \<and>
   repeat_calls 3
     (\<lparr>network = \<lambda>a x. Inl RuntimeError,
      image_folder = \<lambda>p. Inl FileNotFoundError,
      pickle_dumps = Some,
      pickle_loads = \<lambda>b. case b of None \<Rightarrow> Inl UnpicklingError | Some d \<Rightarrow> Inr d\<rparr>
      :: (int, int, (int list list \<times> int list) option) env)
     ''ResNet18'' ''imagenet'' ''elsewhere/'' ''cache/''
     [''cache/imagenet/ResNet18.pkl'' \<mapsto>
       Some ([replicate n_classes (1 :: int), replicate n_classes 2, replicate n_classes 3], [0, 1, 2])] =
   (replicate 3 (Inr ([replicate n_classes (1 :: int), replicate n_classes 2, replicate n_classes 3], [0, 1, 2])),
    [''cache/imagenet/ResNet18.pkl'' \<mapsto>
       Some ([replicate n_classes 1, replicate n_classes 2, replicate n_classes 3], [0, 1, 2])])"
proof -
  let ?env = "\<lparr>network = \<lambda>a x. Inr (map (\<lambda>v. replicate n_classes v) x),
      image_folder = \<lambda>p. Inr [(1 :: int, 0), (2, 1), (3, 2)],
      pickle_dumps = Some,
      pickle_loads = \<lambda>b. case b of None \<Rightarrow> Inl UnpicklingError | Some d \<Rightarrow> Inr d\<rparr>
      :: (int, int, (int list list \<times> int list) option) env"
  let ?env' = "\<lparr>network = \<lambda>a x. Inl RuntimeError,
      image_folder = \<lambda>p. Inl FileNotFoundError,
      pickle_dumps = Some,
      pickle_loads = \<lambda>b. case b of None \<Rightarrow> Inl UnpicklingError | Some d \<Rightarrow> Inr d\<rparr>
      :: (int, int, (int list list \<times> int list) option) env"
  have rt: "\<forall>d. pickle_loads ?env (pickle_dumps ?env d) = Inr d" by simp
  have same: "pickle_loads ?env' = pickle_loads ?env" by simp
  note t = get_logits_dataset_idempotent [OF rt example_miss same, of "''elsewhere/''" 3]
  show ?thesis
    using t [THEN conjunct1] t [THEN conjunct2, THEN conjunct1] by (rule conjI)
qed

end
